theory Spec2Isabelle
  imports Complex_Main
begin

section \<open>Data model of the queue scheduler (component \<open>App\<close>)\<close>

text \<open>
  The source holds two versions of the component \<open>App\<close>; the model follows the later
  one, whose groups of queues grow and shrink.
  The component keeps its scheduler state in React state cells. Queue names are the
  strings \<open>high1, high2, ...\<close> and \<open>regular1, regular2, ...\<close>, always built by the
  template \<open>`high${n}`\<close> or \<open>`regular${n}`\<close>; the name \<open>high3\<close> is written \<open>High 3\<close>.
  A JavaScript number is a double; the model holds the rational \<open>x\<close> for the double
  nearest to \<open>x\<close>. Task values are small integers and progress values are multiples of
  one hundredth, and each step of the progress clock, computed exactly, is the value whose
  nearest double the code holds. Sums of pending values are compared with each other, so
  they are computed as the code computes them, rounding after every addition
  (\<open>toDouble\<close> below). The cells \<open>subQueues\<close>, \<open>progress\<close> and
  \<open>initialDuration\<close> are objects keyed by queue name, modelled as maps; a missing key
  reads as \<open>undefined\<close>, modelled as \<open>None\<close>. Calling \<open>.length\<close>, \<open>.reduce\<close>,
  \<open>.slice\<close>, \<open>.pop\<close> or spreading on \<open>undefined\<close> throws a TypeError (the component
  crashes); every operation returns an option and \<open>None\<close> is that uncaught TypeError.
\<close>

section \<open>Double-precision numbers\<close>

text \<open>
  \<open>binade x\<close> is the exponent \<open>e\<close> with \<open>2^e \<le> x < 2^(e+1)\<close> for a positive \<open>x\<close>.
\<close>

function binade :: "rat \<Rightarrow> int" where
  "binade x =
     (if x \<le> 0 then 0
      else if 2 \<le> x then binade (x / 2) + 1
      else if x < 1 then binade (x * 2) - 1
      else 0)"
  by pat_completeness auto
termination
proof (relation "measure (\<lambda>x. if 1 \<le> x then nat \<lfloor>x\<rfloor> else nat \<lceil>1 / x\<rceil>)")
  show "wf (measure (\<lambda>x::rat. if 1 \<le> x then nat \<lfloor>x\<rfloor> else nat \<lceil>1 / x\<rceil>))" by simp
next
  fix x :: rat
  assume a: "\<not> x \<le> 0" "2 \<le> x"
  have "x / 2 \<le> x - 1" using a by simp
  then have "\<lfloor>x / 2\<rfloor> \<le> \<lfloor>x - 1\<rfloor>" by (rule floor_mono)
  then have "\<lfloor>x / 2\<rfloor> < \<lfloor>x\<rfloor>" by simp
  moreover have "0 < \<lfloor>x\<rfloor>" using a by simp
  ultimately have "nat \<lfloor>x / 2\<rfloor> < nat \<lfloor>x\<rfloor>" by linarith
  moreover have "1 \<le> x / 2" "1 \<le> x" using a by simp_all
  ultimately show "(x / 2, x) \<in> measure (\<lambda>x. if 1 \<le> x then nat \<lfloor>x\<rfloor> else nat \<lceil>1 / x\<rceil>)"
    by (simp only: in_measure if_True)
next
  fix x :: rat
  assume a: "\<not> x \<le> 0" "\<not> 2 \<le> x" "x < 1"
  have y: "1 < 1 / x" using a by simp
  then have c2: "2 \<le> \<lceil>1 / x\<rceil>" by (simp add: le_ceiling_iff)
  show "(x * 2, x) \<in> measure (\<lambda>x. if 1 \<le> x then nat \<lfloor>x\<rfloor> else nat \<lceil>1 / x\<rceil>)"
  proof (cases "1 \<le> x * 2")
    case True
    have "x * 2 < 2" using a by simp
    then have "\<lfloor>x * 2\<rfloor> < 2" by (simp add: floor_less_iff)
    then have "nat \<lfloor>x * 2\<rfloor> < nat \<lceil>1 / x\<rceil>" using c2 by linarith
    moreover have "\<not> 1 \<le> x" using a by simp
    ultimately show ?thesis using True by (simp only: in_measure if_True if_False)
  next
    case False
    then have "2 \<le> 1 / x" using a by (simp add: field_simps)
    then have "1 / (x * 2) \<le> 1 / x - 1" using a by (simp add: field_simps)
    then have "\<lceil>1 / (x * 2)\<rceil> \<le> \<lceil>1 / x - 1\<rceil>" by (rule ceiling_mono)
    then have "\<lceil>1 / (x * 2)\<rceil> < \<lceil>1 / x\<rceil>" by simp
    then have "nat \<lceil>1 / (x * 2)\<rceil> < nat \<lceil>1 / x\<rceil>" using c2 by linarith
    moreover have "\<not> 1 \<le> x" using a by simp
    ultimately show ?thesis using False by (simp only: in_measure if_True if_False)
  qed
qed

text \<open>Rounding to the nearest integer, a tie going to the even one.\<close>

definition roundEven :: "rat \<Rightarrow> int" where
  "roundEven x =
     (let f = \<lfloor>x\<rfloor>; d = x - of_int f
      in if d < 1 / 2 then f else if 1 / 2 < d then f + 1 else if even f then f else f + 1)"

text \<open>
  The double nearest to \<open>x\<close> (53 significant bits, ties to even), for the magnitudes
  that occur here: no number of the component is large enough to overflow, and none but
  0 is below \<open>2^-1022\<close>.
\<close>

definition toDouble :: "rat \<Rightarrow> rat" where
  "toDouble x =
     (if x = 0 then 0
      else (let ulp = 2 powi (binade \<bar>x\<bar> - 52) in of_int (roundEven (x / ulp)) * ulp))"

datatype qname = High nat | Regular nat

datatype task_type = high | normal

record task =
  task_value :: rat
  task_type :: task_type

record state =
  decrementPaused :: bool
  queue :: "task list"
  highPriorityQueues :: "qname list"
  regularPriorityQueues :: "qname list"
  newlyCreatedQueues :: "qname set"
  subQueues :: "qname \<rightharpoonup> rat list"
  progress :: "qname \<rightharpoonup> rat"
  initialDuration :: "qname \<rightharpoonup> rat"

text \<open>The initial values given to \<open>useState\<close>.\<close>

definition initialState :: state where
  "initialState =
     \<lparr> decrementPaused = False,
       queue = [],
       highPriorityQueues = [High 1],
       regularPriorityQueues = [Regular 1, Regular 2, Regular 3, Regular 4],
       newlyCreatedQueues = {},
       subQueues = [High 1 \<mapsto> [], Regular 1 \<mapsto> [], Regular 2 \<mapsto> [],
                    Regular 3 \<mapsto> [], Regular 4 \<mapsto> []],
       progress = [High 1 \<mapsto> 0, High 2 \<mapsto> 0, Regular 1 \<mapsto> 0, Regular 2 \<mapsto> 0,
                   Regular 3 \<mapsto> 0, Regular 4 \<mapsto> 0],
       initialDuration = [High 1 \<mapsto> 0, High 2 \<mapsto> 0, Regular 1 \<mapsto> 0, Regular 2 \<mapsto> 0,
                          Regular 3 \<mapsto> 0, Regular 4 \<mapsto> 0] \<rparr>"

text \<open>Every queue name of both groups, \<open>[...highPriorityQueues, ...regularPriorityQueues]\<close>.\<close>

definition allQueues :: "state \<Rightarrow> qname list" where
  "allQueues s = highPriorityQueues s @ regularPriorityQueues s"

section \<open>Task source\<close>

text \<open>
  The three buttons push \<open>{ value, type }\<close> with \<open>value = Math.floor(Math.random() * 200)\<close>
  to the end of the main queue. The parameter \<open>r\<close> stands for the number drawn by
  \<open>Math.random()\<close>, the double nearest to \<open>r\<close>, which lies in \<open>[0, 1)\<close>; the product
  is rounded to a double before \<open>Math.floor\<close>.
\<close>

definition generatedValue :: "rat \<Rightarrow> rat" where
  "generatedValue r = of_int \<lfloor>toDouble (toDouble r * 200)\<rfloor>"

definition addTask :: "rat \<Rightarrow> task_type \<Rightarrow> state \<Rightarrow> state" where
  "addTask r ty s =
     s\<lparr>queue := queue s @ [\<lparr>task_value = generatedValue r, task_type = ty\<rparr>]\<rparr>"

section \<open>Admission\<close>

text \<open>
  \<open>arr.reduce((sum, taskValue) => sum + taskValue, 0)\<close>: every addition of two doubles
  gives the double nearest to their exact sum.
\<close>

definition queueSum :: "rat list \<Rightarrow> rat" where
  "queueSum l = foldl (\<lambda>sum taskValue. toDouble (sum + toDouble taskValue)) 0 l"

text \<open>
  The \<open>forEach\<close> that looks for the queue with the lowest sum: the running pair is
  \<open>(minQueue, minSum)\<close>, replaced only when a strictly smaller sum is met.
\<close>

fun minScan :: "(qname \<rightharpoonup> rat list) \<Rightarrow> qname list \<Rightarrow> qname \<times> rat \<Rightarrow> (qname \<times> rat) option" where
  "minScan sq [] acc = Some acc"
| "minScan sq (name # names) (minQueue, minSum) =
     (case sq name of
        None \<Rightarrow> None
      | Some l \<Rightarrow>
          if queueSum l < minSum then minScan sq names (name, queueSum l)
          else minScan sq names (minQueue, minSum))"

text \<open>
  \<open>let minQueue = names[0]; let minSum = sq[minQueue].reduce(...)\<close>, then the scan over
  all names. An empty list gives \<open>sq[undefined]\<close>, which is \<open>undefined\<close>, and the
  \<open>reduce\<close> throws.
\<close>

definition leastLoaded :: "(qname \<rightharpoonup> rat list) \<Rightarrow> qname list \<Rightarrow> qname option" where
  "leastLoaded sq names =
     (case names of
        [] \<Rightarrow> None
      | minQueue # _ \<Rightarrow>
          (case sq minQueue of
             None \<Rightarrow> None
           | Some l \<Rightarrow> map_option fst (minScan sq names (minQueue, queueSum l))))"

definition admitTask :: "state \<Rightarrow> state option" where
  "admitTask s =
     (case queue s of
        [] \<Rightarrow> Some s
      | t # rest \<Rightarrow>
          (let names = (if task_type t = high then highPriorityQueues s
                        else regularPriorityQueues s)
           in case leastLoaded (subQueues s) names of
                None \<Rightarrow> None
              | Some minQueue \<Rightarrow>
                  (case subQueues s minQueue of
                     None \<Rightarrow> None
                   | Some l \<Rightarrow>
                       Some (s\<lparr>subQueues := (subQueues s)(minQueue \<mapsto> l @ [task_value t]),
                               queue := rest,
                               decrementPaused := True\<rparr>))))"

text \<open>The timer started by \<open>admitTask\<close> fires after 500 ms.\<close>

definition unpause :: "state \<Rightarrow> state" where
  "unpause s = s\<lparr>decrementPaused := False\<rparr>"

section \<open>Growing and shrinking a group\<close>

definition addHighPriorityQueue :: "state \<Rightarrow> state" where
  "addHighPriorityQueue s =
     (let newQueueName = High (length (highPriorityQueues s) + 1)
      in s\<lparr>highPriorityQueues := highPriorityQueues s @ [newQueueName],
           subQueues := (subQueues s)(newQueueName \<mapsto> []),
           progress := (progress s)(newQueueName \<mapsto> 0),
           initialDuration := (initialDuration s)(newQueueName \<mapsto> 0),
           newlyCreatedQueues := insert newQueueName (newlyCreatedQueues s)\<rparr>)"

definition addRegularPriorityQueue :: "state \<Rightarrow> state" where
  "addRegularPriorityQueue s =
     (let newQueueName = Regular (length (regularPriorityQueues s) + 1)
      in s\<lparr>regularPriorityQueues := regularPriorityQueues s @ [newQueueName],
           subQueues := (subQueues s)(newQueueName \<mapsto> []),
           progress := (progress s)(newQueueName \<mapsto> 0),
           initialDuration := (initialDuration s)(newQueueName \<mapsto> 0),
           newlyCreatedQueues := insert newQueueName (newlyCreatedQueues s)\<rparr>)"

text \<open>The timer started when a queue is added fires after 1000 ms.\<close>

definition graceExpire :: "qname \<Rightarrow> state \<Rightarrow> state" where
  "graceExpire newQueueName s =
     s\<lparr>newlyCreatedQueues := newlyCreatedQueues s - {newQueueName}\<rparr>"

text \<open>
  The \<open>setSubQueues\<close> update of the two remove functions, which differ only in the group
  list \<open>names\<close> they read. \<open>queueToRemove\<close> is the last name, \<open>tasksToRedistribute\<close> is
  \<open>subQueues[queueToRemove] || []\<close> (the whole array of that queue) and \<open>currentTask\<close> is
  the progress of that queue when it is positive, \<open>null\<close> otherwise.
\<close>

definition redistributeRemoved :: "qname list \<Rightarrow> state \<Rightarrow> (qname \<rightharpoonup> rat list) option" where
  "redistributeRemoved names s =
     (let queueToRemove = last names;
          tasksToRedistribute = (case subQueues s queueToRemove of None \<Rightarrow> [] | Some l \<Rightarrow> l);
          currentTask = (case progress s queueToRemove of
                           None \<Rightarrow> None
                         | Some p \<Rightarrow> if p > 0 then Some p else None)
      in if tasksToRedistribute \<noteq> [] \<or> currentTask \<noteq> None then
           (case leastLoaded (subQueues s) (butlast names) of
              None \<Rightarrow> None
            | Some targetQueue \<Rightarrow>
                (case subQueues s targetQueue of
                   None \<Rightarrow> None
                 | Some l \<Rightarrow>
                     (let allTasksToMove =
                            (case currentTask of None \<Rightarrow> [] | Some p \<Rightarrow> [p]) @ tasksToRedistribute
                      in Some (((subQueues s)(targetQueue \<mapsto> l @ allTasksToMove))
                                 (queueToRemove := None)))))
         else Some ((subQueues s)(queueToRemove := None)))"

definition removeHighPriorityQueue :: "state \<Rightarrow> state option" where
  "removeHighPriorityQueue s =
     (if length (highPriorityQueues s) \<le> 1 then Some s
      else
        (let queueToRemove = last (highPriorityQueues s)
         in case redistributeRemoved (highPriorityQueues s) s of
              None \<Rightarrow> None
            | Some newQueues \<Rightarrow>
                Some (s\<lparr>subQueues := newQueues,
                        highPriorityQueues := butlast (highPriorityQueues s),
                        progress := (progress s)(queueToRemove := None),
                        initialDuration := (initialDuration s)(queueToRemove := None),
                        newlyCreatedQueues := newlyCreatedQueues s - {queueToRemove}\<rparr>)))"

definition removeRegularPriorityQueue :: "state \<Rightarrow> state option" where
  "removeRegularPriorityQueue s =
     (if length (regularPriorityQueues s) \<le> 1 then Some s
      else
        (let queueToRemove = last (regularPriorityQueues s)
         in case redistributeRemoved (regularPriorityQueues s) s of
              None \<Rightarrow> None
            | Some newQueues \<Rightarrow>
                Some (s\<lparr>subQueues := newQueues,
                        regularPriorityQueues := butlast (regularPriorityQueues s),
                        progress := (progress s)(queueToRemove := None),
                        initialDuration := (initialDuration s)(queueToRemove := None),
                        newlyCreatedQueues := newlyCreatedQueues s - {queueToRemove}\<rparr>)))"

section \<open>Progress clock\<close>

text \<open>\<open>Math.round(x)\<close> is the integer nearest to \<open>x\<close>, halves going up.\<close>

definition mathRound :: "rat \<Rightarrow> rat" where
  "mathRound x = of_int \<lfloor>x + 1 / 2\<rfloor>"

text \<open>
  The value the interval callback stores in \<open>updated[q]\<close>: \<open>l\<close> is \<open>subQueues[q]\<close> and
  \<open>p\<close> is \<open>prev[q]\<close>; \<open>undefined > 0\<close> is false.
\<close>

definition decremented :: "rat list \<Rightarrow> rat option \<Rightarrow> rat" where
  "decremented l p =
     (case p of
        None \<Rightarrow> 0
      | Some v \<Rightarrow>
          if length l > 0 \<and> v > 0 then max 0 (mathRound ((v - 4 / 10) * 100) / 100)
          else 0)"

text \<open>
  The \<open>forEach\<close> of the interval callback: \<open>sq\<close> is the \<open>subQueues\<close> of the render that
  started the interval, \<open>prev\<close> the progress object handed to the updater, \<open>updated\<close> its
  copy under construction.
\<close>

fun decrementLoop ::
  "(qname \<rightharpoonup> rat list) \<Rightarrow> (qname \<rightharpoonup> rat) \<Rightarrow> qname list \<Rightarrow> (qname \<rightharpoonup> rat)
     \<Rightarrow> (qname \<rightharpoonup> rat) option" where
  "decrementLoop sq prev [] updated = Some updated"
| "decrementLoop sq prev (q # qs) updated =
     (case sq q of
        None \<Rightarrow> None
      | Some l \<Rightarrow> decrementLoop sq prev qs (updated(q \<mapsto> decremented l (prev q))))"

text \<open>
  One period of the interval. While \<open>decrementPaused\<close> holds the effect returns before
  \<open>setInterval\<close>, so no callback runs and nothing changes.
\<close>

definition progressTick :: "state \<Rightarrow> state option" where
  "progressTick s =
     (if decrementPaused s then Some s
      else
        (case decrementLoop (subQueues s) (progress s) (allQueues s) (progress s) of
           None \<Rightarrow> None
         | Some updated \<Rightarrow> Some (s\<lparr>progress := updated\<rparr>)))"

fun ticks :: "nat \<Rightarrow> state \<Rightarrow> state option" where
  "ticks 0 s = Some s"
| "ticks (Suc n) s = (case progressTick s of None \<Rightarrow> None | Some s' \<Rightarrow> ticks n s')"

section \<open>Effects run after a render\<close>

text \<open>
  An effect reads the state of the render it belongs to (\<open>snap\<close>) in its conditions and
  queues functional updates; the updates are applied in the order queued, each to the
  result of the one before (\<open>acc\<close>). An effect applied to a render on its own has
  \<open>acc = snap\<close>.
\<close>

text \<open>The task-completion effect.\<close>

fun completionLoop :: "state \<Rightarrow> qname list \<Rightarrow> state \<Rightarrow> state option" where
  "completionLoop snap [] acc = Some acc"
| "completionLoop snap (q # qs) acc =
     (case subQueues snap q of
        None \<Rightarrow> None
      | Some l \<Rightarrow>
          if length l > 0 \<and> progress snap q = Some 0
             \<and> (case initialDuration snap q of None \<Rightarrow> False | Some d \<Rightarrow> d > 0)
          then
            (case subQueues acc q of
               None \<Rightarrow> None
             | Some l' \<Rightarrow>
                 completionLoop snap qs
                   (acc\<lparr>subQueues := (subQueues acc)(q \<mapsto> tl l'),
                        initialDuration := (initialDuration acc)(q \<mapsto> 0)\<rparr>))
          else completionLoop snap qs acc)"

definition completionEffect :: "state \<Rightarrow> state \<Rightarrow> state option" where
  "completionEffect snap acc = completionLoop snap (allQueues snap) acc"

text \<open>The load-balancing effect: \<open>redistributeTasks(queueGroup)\<close>.\<close>

definition isIdle :: "state \<Rightarrow> qname \<Rightarrow> bool" where
  "isIdle snap q =
     (subQueues snap q = Some [] \<and> progress snap q = Some 0
      \<and> initialDuration snap q = Some 0 \<and> q \<notin> newlyCreatedQueues snap)"

definition isBusy :: "state \<Rightarrow> qname \<Rightarrow> bool" where
  "isBusy snap q =
     ((case subQueues snap q of None \<Rightarrow> False | Some l \<Rightarrow> length l > 1)
      \<and> q \<notin> newlyCreatedQueues snap)"

definition idleQueues :: "state \<Rightarrow> qname list \<Rightarrow> qname list" where
  "idleQueues snap queueGroup = filter (isIdle snap) queueGroup"

definition busyQueues :: "state \<Rightarrow> qname list \<Rightarrow> qname list" where
  "busyQueues snap queueGroup = filter (isBusy snap) queueGroup"

fun maxScan :: "(qname \<rightharpoonup> rat list) \<Rightarrow> qname list \<Rightarrow> qname \<times> rat \<Rightarrow> (qname \<times> rat) option" where
  "maxScan sq [] acc = Some acc"
| "maxScan sq (q # qs) (busiestQueue, maxSum) =
     (case sq q of
        None \<Rightarrow> None
      | Some l \<Rightarrow>
          if queueSum l > maxSum then maxScan sq qs (q, queueSum l)
          else maxScan sq qs (busiestQueue, maxSum))"

text \<open>
  \<open>let busiestQueue = busyQueues[0]; let maxSum = ...\<close> and the scan over the busy
  queues; called only when the list of busy queues is not empty.
\<close>

definition busiest :: "(qname \<rightharpoonup> rat list) \<Rightarrow> qname list \<Rightarrow> (qname \<times> rat) option" where
  "busiest sq busy =
     (case busy of
        [] \<Rightarrow> None
      | b # _ \<Rightarrow>
          (case sq b of
             None \<Rightarrow> None
           | Some l \<Rightarrow> maxScan sq busy (b, queueSum l)))"

text \<open>
  The queued update \<open>prev => { ... pop() ... }\<close>: the last task of the busiest queue goes
  to the front of the idle queue; a \<open>pop\<close> on an empty array gives \<open>undefined\<close> and
  nothing moves.
\<close>

definition moveLastTask :: "qname \<Rightarrow> qname \<Rightarrow> (qname \<rightharpoonup> rat list) \<Rightarrow> (qname \<rightharpoonup> rat list) option" where
  "moveLastTask busiestQueue idleQueue prev =
     (case prev busiestQueue of
        None \<Rightarrow> None
      | Some lb \<Rightarrow>
          if lb = [] then Some prev
          else
            (let taskToMove = last lb;
                 newQueues = prev(busiestQueue \<mapsto> butlast lb)
             in case newQueues idleQueue of
                  None \<Rightarrow> None
                | Some li \<Rightarrow> Some (newQueues(idleQueue \<mapsto> taskToMove # li))))"

definition redistributeTasks :: "state \<Rightarrow> qname list \<Rightarrow> state \<Rightarrow> state option" where
  "redistributeTasks snap queueGroup acc =
     (if \<exists>q \<in> set queueGroup. subQueues snap q = None then None
      else
        (let idle = idleQueues snap queueGroup;
             busy = busyQueues snap queueGroup
         in if length idle > 0 \<and> length busy > 0 then
              (case busiest (subQueues snap) busy of
                 None \<Rightarrow> None
               | Some (busiestQueue, maxSum) \<Rightarrow>
                   if (case subQueues snap busiestQueue of None \<Rightarrow> False | Some l \<Rightarrow> length l > 1)
                      \<and> maxSum > 0
                   then
                     (case moveLastTask busiestQueue (hd idle) (subQueues acc) of
                        None \<Rightarrow> None
                      | Some newQueues \<Rightarrow> Some (acc\<lparr>subQueues := newQueues\<rparr>))
                   else Some acc)
            else Some acc))"

definition rebalanceEffect :: "state \<Rightarrow> state \<Rightarrow> state option" where
  "rebalanceEffect snap acc =
     (case redistributeTasks snap (highPriorityQueues snap) acc of
        None \<Rightarrow> None
      | Some acc' \<Rightarrow> redistributeTasks snap (regularPriorityQueues snap) acc')"

text \<open>The task-initialization effect.\<close>

fun initializationLoop :: "state \<Rightarrow> qname list \<Rightarrow> state \<Rightarrow> state option" where
  "initializationLoop snap [] acc = Some acc"
| "initializationLoop snap (q # qs) acc =
     (case subQueues snap q of
        None \<Rightarrow> None
      | Some l \<Rightarrow>
          if length l > 0 \<and> progress snap q = Some 0 \<and> initialDuration snap q = Some 0
          then
            initializationLoop snap qs
              (acc\<lparr>progress := (progress acc)(q \<mapsto> hd l),
                   initialDuration := (initialDuration acc)(q \<mapsto> hd l)\<rparr>)
          else initializationLoop snap qs acc)"

definition initializationEffect :: "state \<Rightarrow> state \<Rightarrow> state option" where
  "initializationEffect snap acc = initializationLoop snap (allQueues snap) acc"

text \<open>
  All effects of one render, in the order the component declares them: completion,
  load balancing, initialization.
\<close>

definition effectsPass :: "state \<Rightarrow> state option" where
  "effectsPass s =
     (case completionEffect s s of
        None \<Rightarrow> None
      | Some a \<Rightarrow>
          (case rebalanceEffect s a of
             None \<Rightarrow> None
           | Some b \<Rightarrow> initializationEffect s b))"

section \<open>Events and reachable states\<close>

text \<open>
  Everything that changes the state: the buttons, the two kinds of timer, one period of
  the progress interval, and the effects of a render, either all of them on one render
  (\<open>Effects\<close>) or one effect alone.
\<close>

datatype event =
    AddTask rat task_type
  | AdmitTask
  | Unpause
  | AddHigh
  | RemoveHigh
  | AddRegular
  | RemoveRegular
  | GraceExpire qname
  | Tick
  | Completion
  | Rebalance
  | Initialization
  | Effects

fun fire :: "event \<Rightarrow> state \<Rightarrow> state option" where
  "fire (AddTask r ty) s = Some (addTask r ty s)"
| "fire AdmitTask s = admitTask s"
| "fire Unpause s = Some (unpause s)"
| "fire AddHigh s = Some (addHighPriorityQueue s)"
| "fire RemoveHigh s = removeHighPriorityQueue s"
| "fire AddRegular s = Some (addRegularPriorityQueue s)"
| "fire RemoveRegular s = removeRegularPriorityQueue s"
| "fire (GraceExpire q) s = Some (graceExpire q s)"
| "fire Tick s = progressTick s"
| "fire Completion s = completionEffect s s"
| "fire Rebalance s = rebalanceEffect s s"
| "fire Initialization s = initializationEffect s s"
| "fire Effects s = effectsPass s"

text \<open>\<open>Math.random()\<close> returns a number in \<open>[0, 1)\<close>.\<close>

fun possible :: "event \<Rightarrow> bool" where
  "possible (AddTask r ty) = (0 \<le> r \<and> r < 1)"
| "possible _ = True"

fun shrinks :: "event \<Rightarrow> bool" where
  "shrinks RemoveHigh = True"
| "shrinks RemoveRegular = True"
| "shrinks _ = False"

fun run :: "event list \<Rightarrow> state \<Rightarrow> state option" where
  "run [] s = Some s"
| "run (e # es) s = (case fire e s of None \<Rightarrow> None | Some s' \<Rightarrow> run es s')"

text \<open>
  The event deletes queue \<open>q\<close>: a shrink of a group of more than one queue whose last
  queue is \<open>q\<close>. \<open>keeps q es s\<close> says that no event of the run \<open>es\<close> from \<open>s\<close> deletes
  \<open>q\<close>.
\<close>

fun removed :: "event \<Rightarrow> state \<Rightarrow> qname \<Rightarrow> bool" where
  "removed RemoveHigh s q =
     (1 < length (highPriorityQueues s) \<and> q = last (highPriorityQueues s))"
| "removed RemoveRegular s q =
     (1 < length (regularPriorityQueues s) \<and> q = last (regularPriorityQueues s))"
| "removed _ s q = False"

fun keeps :: "qname \<Rightarrow> event list \<Rightarrow> state \<Rightarrow> bool" where
  "keeps q [] s = True"
| "keeps q (e # es) s =
     (\<not> removed e s q \<and> (case fire e s of None \<Rightarrow> True | Some s' \<Rightarrow> keeps q es s'))"

inductive reachable :: "state \<Rightarrow> bool" where
  initial: "reachable initialState"
| step: "reachable s \<Longrightarrow> possible e \<Longrightarrow> fire e s = Some s' \<Longrightarrow> reachable s'"

section \<open>Properties of states\<close>

text \<open>
  The sum of everything pending in a queue, as \<open>reduce\<close> computes it; 0 for a name with
  no array.
\<close>

definition pendingSum :: "(qname \<rightharpoonup> rat list) \<Rightarrow> qname \<Rightarrow> rat" where
  "pendingSum sq q = (case sq q of None \<Rightarrow> 0 | Some l \<Rightarrow> queueSum l)"

text \<open>
  A queue of a group has its three entries, holds no negative value and its progress lies
  between 0 and its initial duration.
\<close>

definition queueOk :: "state \<Rightarrow> qname \<Rightarrow> bool" where
  "queueOk s q =
     (\<exists>l p d. subQueues s q = Some l \<and> progress s q = Some p \<and> initialDuration s q = Some d
              \<and> list_all (\<lambda>v. 0 \<le> v) l \<and> 0 \<le> p \<and> p \<le> d)"

definition wellFormed :: "state \<Rightarrow> bool" where
  "wellFormed s =
     (highPriorityQueues s \<noteq> [] \<and> regularPriorityQueues s \<noteq> []
      \<and> highPriorityQueues s = map High [1..<Suc (length (highPriorityQueues s))]
      \<and> regularPriorityQueues s = map Regular [1..<Suc (length (regularPriorityQueues s))]
      \<and> list_all (queueOk s) (allQueues s)
      \<and> list_all (\<lambda>t. 0 \<le> task_value t) (queue s))"

text \<open>The condition of the completion effect and that of the initialization effect.\<close>

definition completionDue :: "state \<Rightarrow> qname \<Rightarrow> bool" where
  "completionDue s q =
     (\<exists>l d. subQueues s q = Some l \<and> l \<noteq> [] \<and> progress s q = Some 0
            \<and> initialDuration s q = Some d \<and> 0 < d)"

definition initializationDue :: "state \<Rightarrow> qname \<Rightarrow> bool" where
  "initializationDue s q =
     (\<exists>l. subQueues s q = Some l \<and> l \<noteq> [] \<and> progress s q = Some 0
          \<and> initialDuration s q = Some 0)"

text \<open>
  A queue whose head task has the value 0 and has been taken up by the initialization
  effect: progress and initial duration are both 0.
\<close>

definition zeroHead :: "state \<Rightarrow> qname \<Rightarrow> bool" where
  "zeroHead s q =
     (q \<in> set (allQueues s) \<and> (\<exists>rest. subQueues s q = Some (0 # rest))
      \<and> progress s q = Some 0 \<and> initialDuration s q = Some 0)"

text \<open>
  The load the specification describes for steal decisions: the remaining progress of the
  head plus the sum of the tasks waiting behind it.
\<close>

definition specRemainingLoad :: "state \<Rightarrow> qname \<Rightarrow> rat" where
  "specRemainingLoad s q =
     (case progress s q of None \<Rightarrow> 0 | Some p \<Rightarrow> p)
     + (case subQueues s q of None \<Rightarrow> 0 | Some l \<Rightarrow> queueSum (tl l))"

section \<open>Example states\<close>


text \<open>
  The state after a high-priority task of value 12 has been added, admitted and taken up
  by the initialization effect; the admission pause is still on.
\<close>

definition admittedState :: state where
  "admittedState =
     initialState
       \<lparr>decrementPaused := True,
        subQueues := (subQueues initialState)(High 1 \<mapsto> [12]),
        progress := (progress initialState)(High 1 \<mapsto> 12),
        initialDuration := (initialDuration initialState)(High 1 \<mapsto> 12)\<rparr>"

text \<open>
  \<open>high1\<close> holds a finished head task (progress 0, initial duration 30) with one task
  waiting; \<open>regular1\<close> holds a task that has just been admitted.
\<close>

definition dueState :: state where
  "dueState =
     initialState
       \<lparr>subQueues := (subQueues initialState)(High 1 \<mapsto> [30, 7], Regular 1 \<mapsto> [12]),
        initialDuration := (initialDuration initialState)(High 1 \<mapsto> 30)\<rparr>"

text \<open>\<open>high1\<close> holds one task of value 40 that has just been initialized; no pause.\<close>

definition fortyState :: state where
  "fortyState =
     initialState
       \<lparr>subQueues := (subQueues initialState)(High 1 \<mapsto> [40]),
        progress := (progress initialState)(High 1 \<mapsto> 40),
        initialDuration := (initialDuration initialState)(High 1 \<mapsto> 40)\<rparr>"

text \<open>
  Three regular queues matter: \<open>regular1\<close> holds \<open>[100, 10]\<close> with 1 unit of its head
  left, \<open>regular2\<close> holds \<open>[50, 40]\<close> with its head untouched, \<open>regular3\<close> is idle.
\<close>

definition stealChoiceState :: state where
  "stealChoiceState =
     initialState
       \<lparr>subQueues := (subQueues initialState)(Regular 1 \<mapsto> [100, 10], Regular 2 \<mapsto> [50, 40],
                                               Regular 4 \<mapsto> [5]),
        progress := (progress initialState)(Regular 1 \<mapsto> 1, Regular 2 \<mapsto> 50, Regular 4 \<mapsto> 5),
        initialDuration :=
          (initialDuration initialState)(Regular 1 \<mapsto> 100, Regular 2 \<mapsto> 50, Regular 4 \<mapsto> 5)\<rparr>"

text \<open>
  Two high-priority queues: the head task of \<open>high1\<close>, of duration 1, has just run down
  to progress 0 and one task waits behind it; \<open>high2\<close> is idle and its grace period is
  over.
\<close>

definition collisionState :: state where
  "collisionState =
     \<lparr> decrementPaused = False,
       queue = [],
       highPriorityQueues = [High 1, High 2],
       regularPriorityQueues = [Regular 1, Regular 2, Regular 3, Regular 4],
       newlyCreatedQueues = {},
       subQueues = [High 1 \<mapsto> [1, 2], High 2 \<mapsto> [], Regular 1 \<mapsto> [], Regular 2 \<mapsto> [],
                    Regular 3 \<mapsto> [], Regular 4 \<mapsto> []],
       progress = [High 1 \<mapsto> 0, High 2 \<mapsto> 0, Regular 1 \<mapsto> 0, Regular 2 \<mapsto> 0,
                   Regular 3 \<mapsto> 0, Regular 4 \<mapsto> 0],
       initialDuration = [High 1 \<mapsto> 1, High 2 \<mapsto> 0, Regular 1 \<mapsto> 0, Regular 2 \<mapsto> 0,
                          Regular 3 \<mapsto> 0, Regular 4 \<mapsto> 0] \<rparr>"

text \<open>
  Two regular queues: \<open>regular1\<close> holds \<open>[7]\<close>; \<open>regular2\<close> holds \<open>[40, 10, 20]\<close>, its
  head task of duration 40 is in flight with 5 units left and \<open>[10, 20]\<close> wait behind it.
\<close>

definition shrinkState :: state where
  "shrinkState =
     initialState
       \<lparr>regularPriorityQueues := [Regular 1, Regular 2],
        subQueues := [High 1 \<mapsto> [], Regular 1 \<mapsto> [7], Regular 2 \<mapsto> [40, 10, 20]],
        progress := [High 1 \<mapsto> 0, High 2 \<mapsto> 0, Regular 1 \<mapsto> 7, Regular 2 \<mapsto> 5],
        initialDuration := [High 1 \<mapsto> 0, High 2 \<mapsto> 0, Regular 1 \<mapsto> 7, Regular 2 \<mapsto> 40]\<rparr>"

text \<open>
  The state after a high-priority task of value 0 (\<open>Math.random()\<close> below 0.005) has been
  added and admitted.
\<close>

definition zeroTaskState :: state where
  "zeroTaskState =
     initialState
       \<lparr>decrementPaused := True,
        subQueues := (subQueues initialState)(High 1 \<mapsto> [0])\<rparr>"

section \<open>Rounding, sums and the two scans\<close>

declare binade.simps [simp del]

lemma binade_bounds: "0 < x \<Longrightarrow> 2 powi binade x \<le> x \<and> x < 2 powi (binade x + 1)"
proof (induction x rule: binade.induct)
  case (1 x)
  consider "2 \<le> x" | "x < 1" | "1 \<le> x" "x < 2" by linarith
  then show ?case
  proof cases
    case 1
    then have b: "binade x = binade (x / 2) + 1" using "1.prems" by (subst binade.simps) simp
    have ih: "2 powi binade (x / 2) \<le> x / 2 \<and> x / 2 < 2 powi (binade (x / 2) + 1)"
      using "1.IH"(1) "1.prems" 1 by simp
    have "(2::rat) powi (binade (x / 2) + 1) = 2 powi binade (x / 2) * 2"
      by (simp add: power_int_add)
    moreover have "(2::rat) powi (binade (x / 2) + 1 + 1) = 2 powi (binade (x / 2) + 1) * 2"
      by (simp add: power_int_add)
    ultimately show ?thesis using ih b by simp
  next
    case 2
    then have b: "binade x = binade (x * 2) - 1" using "1.prems" by (subst binade.simps) simp
    have ih: "2 powi binade (x * 2) \<le> x * 2 \<and> x * 2 < 2 powi (binade (x * 2) + 1)"
      using "1.IH"(2) "1.prems" 2 by simp
    have h: "(2::rat) powi (binade (x * 2) - 1) = 2 powi binade (x * 2) / 2"
      by (simp add: power_int_diff)
    have lo: "2 powi binade x \<le> x" unfolding b h using ih by simp
    have e: "binade x + 1 = binade (x * 2)" using b by simp
    have "(2::rat) powi (binade (x * 2) + 1) = 2 powi binade (x * 2) * 2"
      by (simp add: power_int_add)
    then have "x * 2 < 2 powi binade (x * 2) * 2" using ih by simp
    then have hi: "x < 2 powi (binade x + 1)" unfolding e by simp
    from lo hi show ?thesis by simp
  next
    case 3
    then have "binade x = 0" using "1.prems" by (subst binade.simps) simp
    then show ?thesis using 3 by simp
  qed
qed

lemma roundEven_of_int: "roundEven (of_int n) = n"
  by (simp add: roundEven_def)

lemma roundEven_nonneg: "0 \<le> x \<Longrightarrow> 0 \<le> roundEven x"
  by (auto simp: roundEven_def Let_def)

lemma toDouble_nonneg: "0 \<le> x \<Longrightarrow> 0 \<le> toDouble x"
  by (simp add: toDouble_def Let_def roundEven_nonneg)

lemma toDouble_dyadic:
  assumes x: "x = of_int n * 2 powi j" and n: "\<bar>n\<bar> < 2 ^ 53"
  shows "toDouble x = x"
proof (cases "n = 0")
  case True
  then show ?thesis using x by (simp add: toDouble_def)
next
  case False
  then have x0: "x \<noteq> 0" using x by simp
  then have ax: "0 < \<bar>x\<bar>" by simp
  define e where "e = binade \<bar>x\<bar>"
  from binade_bounds[OF ax] have lo: "2 powi e \<le> \<bar>x\<bar>" by (simp add: e_def)
  have "\<bar>x\<bar> = of_int \<bar>n\<bar> * 2 powi j" using x by (simp add: abs_mult power_int_abs)
  also have "\<dots> < 2 ^ 53 * 2 powi j"
  proof -
    have "(of_int \<bar>n\<bar> :: rat) < of_int (2 ^ 53)" using n by (simp only: of_int_less_iff)
    then show ?thesis by (simp add: mult_strict_right_mono)
  qed
  also have "\<dots> = 2 powi (53 + j)" by (simp add: power_int_add)
  finally have "(2::rat) powi e < 2 powi (53 + j)" using lo by simp
  then have "e < 53 + j"
  proof (rule contrapos_pp)
    assume "\<not> e < 53 + j"
    then have "53 + j \<le> e" by simp
    then have "(2::rat) powi (53 + j) \<le> 2 powi e" by (intro power_int_increasing) simp_all
    then show "\<not> (2::rat) powi e < 2 powi (53 + j)" by simp
  qed
  then have k: "0 \<le> j - (e - 52)" by simp
  define m where "m = n * 2 ^ nat (j - (e - 52))"
  have "x / 2 powi (e - 52) = of_int n * 2 powi (j - (e - 52))"
    using x by (simp add: power_int_diff)
  also have "\<dots> = of_int m" using k by (simp add: m_def power_int_nonneg_exp)
  finally have q: "x / 2 powi (e - 52) = of_int m" .
  have "toDouble x = of_int (roundEven (x / 2 powi (e - 52))) * 2 powi (e - 52)"
    using x0 by (simp add: toDouble_def Let_def e_def)
  also have "\<dots> = of_int m * 2 powi (e - 52)" by (simp only: q roundEven_of_int)
  also have "\<dots> = x" using q by (simp add: field_simps)
  finally show ?thesis .
qed

lemma toDouble_int: "x \<in> \<int> \<Longrightarrow> \<bar>x\<bar> < 9007199254740992 \<Longrightarrow> toDouble x = x"
proof -
  assume a: "x \<in> \<int>" "\<bar>x\<bar> < 9007199254740992"
  then obtain n where n: "x = of_int n" by (auto elim: Ints_cases)
  have "\<bar>n\<bar> < 2 ^ 53" using a(2) n by (simp flip: of_int_abs)
  then show ?thesis using toDouble_dyadic[of x n 0] n by simp
qed

lemma toDouble_0: "toDouble 0 = 0"
  by (simp add: toDouble_def)

lemma queueSum_Nil: "queueSum [] = 0"
  by (simp add: queueSum_def)

text \<open>Sums of small whole numbers are exact.\<close>

lemmas queueSum_eval = queueSum_def toDouble_int

text \<open>
  Sums of other values are not: taken exactly, \<open>[2.6, 3, 0.6, 1]\<close> and \<open>[2, 2.2, 3]\<close>
  both sum to 7.2; as the code adds them the first sum is the smaller one.
\<close>

lemma queueSum_rounds: "queueSum [13 / 5, 3, 3 / 5, 1] < queueSum [2, 11 / 5, 3]"
  by code_simp

text \<open>Some numbers \<open>Math.random()\<close> can return, and the task values they give.\<close>

lemma doubles:
  "toDouble (1 / 2) = 1 / 2" "toDouble (1 / 16) = 1 / 16"
  "toDouble (1 / 128) = 1 / 128" "toDouble (3 / 256) = 3 / 256"
  using toDouble_dyadic[of "1 / 2" 1 "-1"] toDouble_dyadic[of "1 / 16" 1 "-4"]
    toDouble_dyadic[of "1 / 128" 1 "-7"] toDouble_dyadic[of "3 / 256" 3 "-8"]
  by simp_all

lemma generated_values:
  "generatedValue 0 = 0" "generatedValue (1 / 2) = 100" "generatedValue (1 / 16) = 12"
  "generatedValue (1 / 128) = 1" "generatedValue (3 / 256) = 2"
proof -
  have a: "toDouble (25 / 2) = 25 / 2" "toDouble (25 / 16) = 25 / 16"
    "toDouble (75 / 32) = 75 / 32"
    using toDouble_dyadic[of "25 / 2" 25 "-1"] toDouble_dyadic[of "25 / 16" 25 "-4"]
      toDouble_dyadic[of "75 / 32" 75 "-5"]
    by simp_all
  have f: "\<lfloor>(25::rat) / 2\<rfloor> = 12" "\<lfloor>(25::rat) / 16\<rfloor> = 1" "\<lfloor>(75::rat) / 32\<rfloor> = 2"
    by (rule floor_unique; simp)+
  show "generatedValue 0 = 0" by (simp add: generatedValue_def toDouble_0)
  show "generatedValue (1 / 2) = 100" by (simp add: generatedValue_def doubles toDouble_int)
  show "generatedValue (1 / 16) = 12" by (simp add: generatedValue_def doubles a f)
  show "generatedValue (1 / 128) = 1" by (simp add: generatedValue_def doubles a f)
  show "generatedValue (3 / 256) = 2" by (simp add: generatedValue_def doubles a f)
qed

text \<open>
  The product is rounded before the floor: for the double nearest to 0.24 the code
  yields 48, where the exact product would give 47.
\<close>

lemma generatedValue_rounds:
  "generatedValue (6 / 25) = 48"
  by code_simp

text \<open>\<open>Math.round\<close> leaves a whole number alone.\<close>

lemma mathRound_numeral:
  "mathRound (numeral n) = numeral n" "mathRound (- numeral n) = - numeral n" "mathRound 0 = 0"
proof -
  have a: "mathRound (of_int z) = of_int z" for z
  proof -
    have "\<lfloor>(of_int z :: rat) + 1 / 2\<rfloor> = z" by (rule floor_unique) simp_all
    then show ?thesis by (simp add: mathRound_def)
  qed
  show "mathRound (numeral n) = numeral n" using a[of "numeral n"] by simp
  show "mathRound (- numeral n) = - numeral n" using a[of "- numeral n"] by simp
  show "mathRound 0 = 0" using a[of 0] by simp
qed

lemma pendingSum_Some: "sq q = Some l \<Longrightarrow> pendingSum sq q = queueSum l"
  by (simp add: pendingSum_def)

text \<open>
  The scan for the minimum ends with the start pair when no queue is strictly below it,
  and otherwise with the first queue of the list that has the least sum.
\<close>

lemma minScan_result:
  assumes "\<forall>q \<in> set names. sq q \<noteq> None"
  shows "\<exists>m' ms'. minScan sq names (m, ms) = Some (m', ms')
           \<and> ((m' = m \<and> ms' = ms \<and> (\<forall>q \<in> set names. ms \<le> pendingSum sq q))
              \<or> (\<exists>pre post. names = pre @ m' # post \<and> ms' = pendingSum sq m' \<and> ms' < ms
                    \<and> (\<forall>q \<in> set pre. ms' < pendingSum sq q)
                    \<and> (\<forall>q \<in> set post. ms' \<le> pendingSum sq q)))"
  using assms
proof (induction names arbitrary: m ms)
  case Nil
  then show ?case by simp
next
  case (Cons name names)
  from Cons.prems obtain l where l: "sq name = Some l" by auto
  have rest: "\<forall>q \<in> set names. sq q \<noteq> None" using Cons.prems by simp
  have ps: "pendingSum sq name = queueSum l" using l by (rule pendingSum_Some)
  show ?case
  proof (cases "queueSum l < ms")
    case True
    from Cons.IH[OF rest, of name "queueSum l"] obtain m' ms' where
      r: "minScan sq names (name, queueSum l) = Some (m', ms')" and
      d: "(m' = name \<and> ms' = queueSum l \<and> (\<forall>q \<in> set names. queueSum l \<le> pendingSum sq q))
          \<or> (\<exists>pre post. names = pre @ m' # post \<and> ms' = pendingSum sq m' \<and> ms' < queueSum l
                \<and> (\<forall>q \<in> set pre. ms' < pendingSum sq q)
                \<and> (\<forall>q \<in> set post. ms' \<le> pendingSum sq q))"
      by blast
    have eq: "minScan sq (name # names) (m, ms) = Some (m', ms')"
      using l True r by simp
    from d show ?thesis
    proof
      assume a: "m' = name \<and> ms' = queueSum l \<and> (\<forall>q \<in> set names. queueSum l \<le> pendingSum sq q)"
      have "name # names = [] @ m' # names \<and> ms' = pendingSum sq m' \<and> ms' < ms
              \<and> (\<forall>q \<in> set []. ms' < pendingSum sq q)
              \<and> (\<forall>q \<in> set names. ms' \<le> pendingSum sq q)"
        using a True ps by simp
      then show ?thesis using eq by blast
    next
      assume "\<exists>pre post. names = pre @ m' # post \<and> ms' = pendingSum sq m' \<and> ms' < queueSum l
                \<and> (\<forall>q \<in> set pre. ms' < pendingSum sq q)
                \<and> (\<forall>q \<in> set post. ms' \<le> pendingSum sq q)"
      then obtain pre post where b: "names = pre @ m' # post" "ms' = pendingSum sq m'"
        "ms' < queueSum l" "\<forall>q \<in> set pre. ms' < pendingSum sq q"
        "\<forall>q \<in> set post. ms' \<le> pendingSum sq q"
        by blast
      have "name # names = (name # pre) @ m' # post \<and> ms' = pendingSum sq m' \<and> ms' < ms
              \<and> (\<forall>q \<in> set (name # pre). ms' < pendingSum sq q)
              \<and> (\<forall>q \<in> set post. ms' \<le> pendingSum sq q)"
        using b True ps by simp
      then show ?thesis using eq by blast
    qed
  next
    case False
    from Cons.IH[OF rest, of m ms] obtain m' ms' where
      r: "minScan sq names (m, ms) = Some (m', ms')" and
      d: "(m' = m \<and> ms' = ms \<and> (\<forall>q \<in> set names. ms \<le> pendingSum sq q))
          \<or> (\<exists>pre post. names = pre @ m' # post \<and> ms' = pendingSum sq m' \<and> ms' < ms
                \<and> (\<forall>q \<in> set pre. ms' < pendingSum sq q)
                \<and> (\<forall>q \<in> set post. ms' \<le> pendingSum sq q))"
      by blast
    have eq: "minScan sq (name # names) (m, ms) = Some (m', ms')"
      using l False r by simp
    from d show ?thesis
    proof
      assume a: "m' = m \<and> ms' = ms \<and> (\<forall>q \<in> set names. ms \<le> pendingSum sq q)"
      then have "m' = m \<and> ms' = ms \<and> (\<forall>q \<in> set (name # names). ms \<le> pendingSum sq q)"
        using False ps by simp
      then show ?thesis using eq by blast
    next
      assume "\<exists>pre post. names = pre @ m' # post \<and> ms' = pendingSum sq m' \<and> ms' < ms
                \<and> (\<forall>q \<in> set pre. ms' < pendingSum sq q)
                \<and> (\<forall>q \<in> set post. ms' \<le> pendingSum sq q)"
      then obtain pre post where b: "names = pre @ m' # post" "ms' = pendingSum sq m'"
        "ms' < ms" "\<forall>q \<in> set pre. ms' < pendingSum sq q"
        "\<forall>q \<in> set post. ms' \<le> pendingSum sq q"
        by blast
      have "name # names = (name # pre) @ m' # post \<and> ms' = pendingSum sq m' \<and> ms' < ms
              \<and> (\<forall>q \<in> set (name # pre). ms' < pendingSum sq q)
              \<and> (\<forall>q \<in> set post. ms' \<le> pendingSum sq q)"
        using b False ps by simp
      then show ?thesis using eq by blast
    qed
  qed
qed

text \<open>The queue chosen for a new task: the first one of the group with the least sum.\<close>

lemma leastLoaded_first_min:
  assumes "names \<noteq> []" and "\<forall>q \<in> set names. sq q \<noteq> None"
  shows "\<exists>target pre post. leastLoaded sq names = Some target \<and> names = pre @ target # post
           \<and> (\<forall>q \<in> set pre. pendingSum sq target < pendingSum sq q)
           \<and> (\<forall>q \<in> set post. pendingSum sq target \<le> pendingSum sq q)"
proof -
  from assms(1) obtain n0 rest where names: "names = n0 # rest" by (cases names) auto
  from assms(2) names obtain l0 where l0: "sq n0 = Some l0" by auto
  have ps0: "pendingSum sq n0 = queueSum l0" using l0 by (rule pendingSum_Some)
  from minScan_result[OF assms(2), of n0 "queueSum l0"] obtain m' ms' where
    r: "minScan sq names (n0, queueSum l0) = Some (m', ms')" and
    d: "(m' = n0 \<and> ms' = queueSum l0 \<and> (\<forall>q \<in> set names. queueSum l0 \<le> pendingSum sq q))
        \<or> (\<exists>pre post. names = pre @ m' # post \<and> ms' = pendingSum sq m' \<and> ms' < queueSum l0
              \<and> (\<forall>q \<in> set pre. ms' < pendingSum sq q)
              \<and> (\<forall>q \<in> set post. ms' \<le> pendingSum sq q))"
    by blast
  have ll: "leastLoaded sq names = Some m'"
    using names l0 r by (simp add: leastLoaded_def)
  from d show ?thesis
  proof
    assume a: "m' = n0 \<and> ms' = queueSum l0 \<and> (\<forall>q \<in> set names. queueSum l0 \<le> pendingSum sq q)"
    have "names = [] @ m' # rest \<and> (\<forall>q \<in> set []. pendingSum sq m' < pendingSum sq q)
            \<and> (\<forall>q \<in> set rest. pendingSum sq m' \<le> pendingSum sq q)"
      using a names ps0 by simp
    then show ?thesis using ll by blast
  next
    assume "\<exists>pre post. names = pre @ m' # post \<and> ms' = pendingSum sq m' \<and> ms' < queueSum l0
              \<and> (\<forall>q \<in> set pre. ms' < pendingSum sq q)
              \<and> (\<forall>q \<in> set post. ms' \<le> pendingSum sq q)"
    then obtain pre post where "names = pre @ m' # post"
      "\<forall>q \<in> set pre. pendingSum sq m' < pendingSum sq q"
      "\<forall>q \<in> set post. pendingSum sq m' \<le> pendingSum sq q"
      by blast
    then show ?thesis using ll by blast
  qed
qed

section \<open>Admission (claim C1)\<close>


lemma admitTask_nonempty:
  assumes q: "queue s = t # rest"
    and n: "names = (if task_type t = high then highPriorityQueues s else regularPriorityQueues s)"
    and ne: "names \<noteq> []" and df: "\<forall>q \<in> set names. subQueues s q \<noteq> None"
  shows "\<exists>target pre post l. names = pre @ target # post
           \<and> (\<forall>q \<in> set pre. pendingSum (subQueues s) target < pendingSum (subQueues s) q)
           \<and> (\<forall>q \<in> set post. pendingSum (subQueues s) target \<le> pendingSum (subQueues s) q)
           \<and> subQueues s target = Some l
           \<and> admitTask s = Some (s\<lparr>subQueues := (subQueues s)(target \<mapsto> l @ [task_value t]),
                                    queue := rest, decrementPaused := True\<rparr>)"
proof -
  from leastLoaded_first_min[OF ne df] obtain target pre post where
    ll: "leastLoaded (subQueues s) names = Some target" and dec: "names = pre @ target # post" and
    lt: "\<forall>q \<in> set pre. pendingSum (subQueues s) target < pendingSum (subQueues s) q" and
    le: "\<forall>q \<in> set post. pendingSum (subQueues s) target \<le> pendingSum (subQueues s) q"
    by blast
  from dec df obtain l where l: "subQueues s target = Some l" by auto
  have "admitTask s = Some (s\<lparr>subQueues := (subQueues s)(target \<mapsto> l @ [task_value t]),
                                    queue := rest, decrementPaused := True\<rparr>)"
    using q n ll l by (simp add: admitTask_def)
  with dec lt le l show ?thesis by blast
qed


text \<open>
  The sums compared are those the code computes: with \<open>[2, 2.2, 3]\<close> in the first queue
  and \<open>[2.6, 3, 0.6, 1]\<close> in the second, the second has the smaller sum.
\<close>

lemma leastLoaded_rounding:
  "leastLoaded [High 1 \<mapsto> [2, 11 / 5, 3], High 2 \<mapsto> [13 / 5, 3, 3 / 5, 1]] [High 1, High 2]
     = Some (High 2)"
  using queueSum_rounds by (simp add: leastLoaded_def)



section \<open>The progress clock (claim C4)\<close>

lemma decremented_cases:
  "decremented l None = 0"
  "decremented [] p = 0"
  "v \<le> 0 \<Longrightarrow> decremented l (Some v) = 0"
  "l \<noteq> [] \<Longrightarrow> 0 < v \<Longrightarrow> decremented l (Some v) = max 0 (of_int \<lfloor>(v - 4 / 10) * 100 + 1 / 2\<rfloor> / 100)"
  by (simp_all add: decremented_def mathRound_def split: option.splits)

lemma decremented_nonneg: "0 \<le> decremented l p"
  by (simp add: decremented_def split: option.splits)

lemma decrementLoop_result:
  assumes "\<forall>q \<in> set qs. sq q \<noteq> None"
  shows "\<exists>u. decrementLoop sq prev qs updated = Some u
           \<and> (\<forall>q. u q = (if q \<in> set qs then Some (decremented (the (sq q)) (prev q)) else updated q))"
  using assms
proof (induction qs arbitrary: updated)
  case Nil
  then show ?case by simp
next
  case (Cons a qs)
  from Cons.prems obtain l where l: "sq a = Some l" by auto
  have rest: "\<forall>q \<in> set qs. sq q \<noteq> None" using Cons.prems by simp
  from Cons.IH[OF rest, of "updated(a \<mapsto> decremented l (prev a))"] obtain u where
    u: "decrementLoop sq prev qs (updated(a \<mapsto> decremented l (prev a))) = Some u" and
    v: "\<forall>q. u q = (if q \<in> set qs then Some (decremented (the (sq q)) (prev q))
                    else (updated(a \<mapsto> decremented l (prev a))) q)"
    by blast
  have "decrementLoop sq prev (a # qs) updated = Some u" using l u by simp
  moreover have "\<forall>q. u q = (if q \<in> set (a # qs) then Some (decremented (the (sq q)) (prev q)) else updated q)"
    using v l by auto
  ultimately show ?case by blast
qed

lemma progressTick_paused: "decrementPaused s \<Longrightarrow> progressTick s = Some s"
  by (simp add: progressTick_def)

lemma progressTick_running:
  assumes "\<not> decrementPaused s" and "\<forall>q \<in> set (allQueues s). subQueues s q \<noteq> None"
  shows "\<exists>updated. progressTick s = Some (s\<lparr>progress := updated\<rparr>)
           \<and> (\<forall>q. updated q = (if q \<in> set (allQueues s)
                                then Some (decremented (the (subQueues s q)) (progress s q))
                                else progress s q))"
proof -
  from decrementLoop_result[OF assms(2), of "progress s" "progress s"] obtain u where
    "decrementLoop (subQueues s) (progress s) (allQueues s) (progress s) = Some u"
    "\<forall>q. u q = (if q \<in> set (allQueues s)
                 then Some (decremented (the (subQueues s q)) (progress s q)) else progress s q)"
    by blast
  then show ?thesis using assms(1) by (auto simp: progressTick_def)
qed

text \<open>The definitions unfolded to evaluate an operation on a concrete state.\<close>

lemmas eval_defs = initialState_def addTask_def generated_values admitTask_def leastLoaded_def
  queueSum_eval unpause_def addHighPriorityQueue_def addRegularPriorityQueue_def graceExpire_def
  redistributeRemoved_def removeHighPriorityQueue_def removeRegularPriorityQueue_def
  progressTick_def decremented_def mathRound_numeral allQueues_def
  completionEffect_def isIdle_def isBusy_def idleQueues_def busyQueues_def busiest_def moveLastTask_def
  redistributeTasks_def rebalanceEffect_def initializationEffect_def effectsPass_def Let_def

lemma admittedState_run:
  "run [AddTask (1 / 16) high, AdmitTask, Effects] initialState = Some admittedState"
  by (simp add: eval_defs admittedState_def)

text \<open>
  Claim C4 as stated says that a tick sets the progress of every queue to 0 while the
  admission pause is on. The state below is reached by adding a high-priority task of
  value 12, admitting it and running the effects; the pause is on, the progress of
  \<open>high1\<close> is 12, and after a tick it is still 12.
\<close>

theorem C4_pause_counterexample:
  "run [AddTask (1 / 16) high, AdmitTask, Effects] initialState = Some admittedState
   \<and> decrementPaused admittedState \<and> High 1 \<in> set (allQueues admittedState)
   \<and> subQueues admittedState (High 1) = Some [12]
   \<and> progress admittedState (High 1) = Some 12
   \<and> progressTick admittedState = Some admittedState"
  by (simp add: eval_defs admittedState_def)

text \<open>
  Claim C4, amended. While the admission pause is on a tick changes nothing at all.
  Otherwise, when every queue of both groups has an array, the tick replaces only the
  progress object: for a queue of a group the new progress is 0 when its array is empty
  or its progress is missing or not positive, and \<open>max(0, round((p - 0.4) * 100) / 100)\<close>
  when the array is not empty and the progress \<open>p\<close> is positive; entries of other names
  are kept.
\<close>

theorem C4_progressTick_amended:
  "(decrementPaused s \<longrightarrow> progressTick s = Some s)
   \<and> (\<not> decrementPaused s \<and> (\<forall>q \<in> set (allQueues s). subQueues s q \<noteq> None)
       \<longrightarrow> (\<exists>updated. progressTick s = Some (s\<lparr>progress := updated\<rparr>)
              \<and> (\<forall>q l. q \<in> set (allQueues s) \<and> subQueues s q = Some l
                    \<longrightarrow> ((l = [] \<or> progress s q = None \<or> (\<exists>p. progress s q = Some p \<and> p \<le> 0))
                          \<longrightarrow> updated q = Some 0)
                        \<and> (\<forall>p. l \<noteq> [] \<and> progress s q = Some p \<and> 0 < p
                              \<longrightarrow> updated q = Some (max 0 (of_int \<lfloor>(p - 4 / 10) * 100 + 1 / 2\<rfloor> / 100))))
              \<and> (\<forall>q. q \<notin> set (allQueues s) \<longrightarrow> updated q = progress s q)))"
proof (intro conjI impI)
  assume "decrementPaused s"
  then show "progressTick s = Some s" by (rule progressTick_paused)
next
  assume a: "\<not> decrementPaused s \<and> (\<forall>q \<in> set (allQueues s). subQueues s q \<noteq> None)"
  from progressTick_running[of s] a obtain updated where
    t: "progressTick s = Some (s\<lparr>progress := updated\<rparr>)" and
    u: "\<forall>q. updated q = (if q \<in> set (allQueues s)
                           then Some (decremented (the (subQueues s q)) (progress s q))
                           else progress s q)"
    by blast
  have "\<forall>q l. q \<in> set (allQueues s) \<and> subQueues s q = Some l
          \<longrightarrow> ((l = [] \<or> progress s q = None \<or> (\<exists>p. progress s q = Some p \<and> p \<le> 0))
                \<longrightarrow> updated q = Some 0)
              \<and> (\<forall>p. l \<noteq> [] \<and> progress s q = Some p \<and> 0 < p
                    \<longrightarrow> updated q = Some (max 0 (of_int \<lfloor>(p - 4 / 10) * 100 + 1 / 2\<rfloor> / 100)))"
    using u by (auto simp: decremented_cases)
  moreover have "\<forall>q. q \<notin> set (allQueues s) \<longrightarrow> updated q = progress s q"
    using u by simp
  ultimately show "\<exists>updated. progressTick s = Some (s\<lparr>progress := updated\<rparr>)
              \<and> (\<forall>q l. q \<in> set (allQueues s) \<and> subQueues s q = Some l
                    \<longrightarrow> ((l = [] \<or> progress s q = None \<or> (\<exists>p. progress s q = Some p \<and> p \<le> 0))
                          \<longrightarrow> updated q = Some 0)
                        \<and> (\<forall>p. l \<noteq> [] \<and> progress s q = Some p \<and> 0 < p
                              \<longrightarrow> updated q = Some (max 0 (of_int \<lfloor>(p - 4 / 10) * 100 + 1 / 2\<rfloor> / 100))))
              \<and> (\<forall>q. q \<notin> set (allQueues s) \<longrightarrow> updated q = progress s q)"
    using t by blast
qed

theorem C4_progressTick_witness:
  "progressTick admittedState = Some admittedState
   \<and> (\<exists>updated. progressTick (unpause admittedState) = Some ((unpause admittedState)\<lparr>progress := updated\<rparr>)
         \<and> updated (High 1) = Some (58 / 5) \<and> updated (Regular 1) = Some 0
         \<and> updated (High 2) = Some 0)"
proof -
  have p: "decrementPaused admittedState" by (simp add: admittedState_def)
  have a: "progressTick admittedState = Some admittedState"
    using C4_progressTick_amended[of admittedState] p by blast
  have h: "\<not> decrementPaused (unpause admittedState)
           \<and> (\<forall>q \<in> set (allQueues (unpause admittedState)). subQueues (unpause admittedState) q \<noteq> None)"
    by (simp add: admittedState_def unpause_def allQueues_def initialState_def)
  from C4_progressTick_amended[of "unpause admittedState", THEN conjunct2, rule_format, OF h]
  obtain updated where
    t: "progressTick (unpause admittedState) = Some ((unpause admittedState)\<lparr>progress := updated\<rparr>)" and
    u: "\<forall>q l. q \<in> set (allQueues (unpause admittedState)) \<and> subQueues (unpause admittedState) q = Some l
          \<longrightarrow> ((l = [] \<or> progress (unpause admittedState) q = None
                   \<or> (\<exists>p. progress (unpause admittedState) q = Some p \<and> p \<le> 0))
                \<longrightarrow> updated q = Some 0)
              \<and> (\<forall>p. l \<noteq> [] \<and> progress (unpause admittedState) q = Some p \<and> 0 < p
                    \<longrightarrow> updated q = Some (max 0 (of_int \<lfloor>(p - 4 / 10) * 100 + 1 / 2\<rfloor> / 100)))" and
    v: "\<forall>q. q \<notin> set (allQueues (unpause admittedState)) \<longrightarrow> updated q = progress (unpause admittedState) q"
    by blast
  have h1: "High 1 \<in> set (allQueues (unpause admittedState))
            \<and> subQueues (unpause admittedState) (High 1) = Some [12]"
    by (simp add: admittedState_def unpause_def allQueues_def initialState_def)
  have p1: "[12] \<noteq> [] \<and> progress (unpause admittedState) (High 1) = Some 12 \<and> (0::rat) < 12"
    by (simp add: admittedState_def unpause_def initialState_def)
  have "updated (High 1) = Some (max 0 (of_int \<lfloor>((12::rat) - 4 / 10) * 100 + 1 / 2\<rfloor> / 100))"
    using u[rule_format, OF h1, THEN conjunct2, rule_format, OF p1] .
  moreover have "\<lfloor>((12::rat) - 4 / 10) * 100 + 1 / 2\<rfloor> = 1160"
    by (rule floor_unique) simp_all
  ultimately have u1: "updated (High 1) = Some (58 / 5)" by simp
  have h2: "Regular 1 \<in> set (allQueues (unpause admittedState))
            \<and> subQueues (unpause admittedState) (Regular 1) = Some []"
    by (simp add: admittedState_def unpause_def allQueues_def initialState_def)
  have u2: "updated (Regular 1) = Some 0"
    using u[rule_format, OF h2, THEN conjunct1] by simp
  have "High 2 \<notin> set (allQueues (unpause admittedState))"
    by (simp add: admittedState_def unpause_def allQueues_def initialState_def)
  then have "updated (High 2) = progress (unpause admittedState) (High 2)"
    using v by blast
  then have u3: "updated (High 2) = Some 0"
    by (simp add: admittedState_def unpause_def initialState_def)
  from a t u1 u2 u3 show ?thesis by blast
qed

section \<open>Completion and initialization (claim C5)\<close>

text \<open>
  What the two loops compute. The completion loop needs the names to be distinct: its
  update takes the tail of the array it is handed, once for every occurrence of a name.
\<close>

lemma completionLoop_result:
  assumes "\<forall>q \<in> set qs. subQueues snap q \<noteq> None \<and> subQueues acc q \<noteq> None" and "distinct qs"
  shows "completionLoop snap qs acc =
           Some (acc\<lparr>subQueues := (\<lambda>q. if q \<in> set qs \<and> completionDue snap q
                                         then map_option tl (subQueues acc q) else subQueues acc q),
                      initialDuration := (\<lambda>q. if q \<in> set qs \<and> completionDue snap q
                                               then Some 0 else initialDuration acc q)\<rparr>)"
  using assms
proof (induction qs arbitrary: acc)
  case Nil
  then show ?case by simp
next
  case (Cons a qs)
  from Cons.prems obtain l l' where l: "subQueues snap a = Some l" and l': "subQueues acc a = Some l'"
    by auto
  have d: "a \<notin> set qs" "distinct qs" using Cons.prems by simp_all
  show ?case
  proof (cases "completionDue snap a")
    case True
    let ?acc = "acc\<lparr>subQueues := (subQueues acc)(a \<mapsto> tl l'),
                     initialDuration := (initialDuration acc)(a \<mapsto> 0)\<rparr>"
    have g: "length l > 0 \<and> progress snap a = Some 0
             \<and> (case initialDuration snap a of None \<Rightarrow> False | Some d \<Rightarrow> d > 0)"
      using True l by (auto simp: completionDue_def)
    have pre: "\<forall>q \<in> set qs. subQueues snap q \<noteq> None \<and> subQueues ?acc q \<noteq> None"
      using Cons.prems by simp
    have "completionLoop snap (a # qs) acc = completionLoop snap qs ?acc"
      using l l' g by simp
    also have "\<dots> = Some (?acc\<lparr>subQueues := (\<lambda>q. if q \<in> set qs \<and> completionDue snap q
                                         then map_option tl (subQueues ?acc q) else subQueues ?acc q),
                      initialDuration := (\<lambda>q. if q \<in> set qs \<and> completionDue snap q
                                               then Some 0 else initialDuration ?acc q)\<rparr>)"
      by (rule Cons.IH[OF pre d(2)])
    also have "\<dots> = Some (acc\<lparr>subQueues := (\<lambda>q. if q \<in> set (a # qs) \<and> completionDue snap q
                                         then map_option tl (subQueues acc q) else subQueues acc q),
                      initialDuration := (\<lambda>q. if q \<in> set (a # qs) \<and> completionDue snap q
                                               then Some 0 else initialDuration acc q)\<rparr>)"
      using True d(1) l' by (auto simp: fun_eq_iff)
    finally show ?thesis .
  next
    case False
    have g: "\<not> (length l > 0 \<and> progress snap a = Some 0
             \<and> (case initialDuration snap a of None \<Rightarrow> False | Some d \<Rightarrow> d > 0))"
      using False l by (auto simp: completionDue_def split: option.splits)
    have pre: "\<forall>q \<in> set qs. subQueues snap q \<noteq> None \<and> subQueues acc q \<noteq> None"
      using Cons.prems by simp
    have "completionLoop snap (a # qs) acc = completionLoop snap qs acc"
      using l g by auto
    also have "\<dots> = Some (acc\<lparr>subQueues := (\<lambda>q. if q \<in> set qs \<and> completionDue snap q
                                         then map_option tl (subQueues acc q) else subQueues acc q),
                      initialDuration := (\<lambda>q. if q \<in> set qs \<and> completionDue snap q
                                               then Some 0 else initialDuration acc q)\<rparr>)"
      by (rule Cons.IH[OF pre d(2)])
    also have "\<dots> = Some (acc\<lparr>subQueues := (\<lambda>q. if q \<in> set (a # qs) \<and> completionDue snap q
                                         then map_option tl (subQueues acc q) else subQueues acc q),
                      initialDuration := (\<lambda>q. if q \<in> set (a # qs) \<and> completionDue snap q
                                               then Some 0 else initialDuration acc q)\<rparr>)"
      using False by (auto simp: fun_eq_iff)
    finally show ?thesis .
  qed
qed

lemma initializationLoop_result:
  assumes "\<forall>q \<in> set qs. subQueues snap q \<noteq> None"
  shows "initializationLoop snap qs acc =
           Some (acc\<lparr>progress := (\<lambda>q. if q \<in> set qs \<and> initializationDue snap q
                                        then map_option hd (subQueues snap q) else progress acc q),
                      initialDuration := (\<lambda>q. if q \<in> set qs \<and> initializationDue snap q
                                               then map_option hd (subQueues snap q)
                                               else initialDuration acc q)\<rparr>)"
  using assms
proof (induction qs arbitrary: acc)
  case Nil
  then show ?case by simp
next
  case (Cons a qs)
  from Cons.prems obtain l where l: "subQueues snap a = Some l" by auto
  have pre: "\<forall>q \<in> set qs. subQueues snap q \<noteq> None" using Cons.prems by simp
  show ?case
  proof (cases "initializationDue snap a")
    case True
    let ?acc = "acc\<lparr>progress := (progress acc)(a \<mapsto> hd l),
                     initialDuration := (initialDuration acc)(a \<mapsto> hd l)\<rparr>"
    have g: "length l > 0 \<and> progress snap a = Some 0 \<and> initialDuration snap a = Some 0"
      using True l by (auto simp: initializationDue_def)
    have "initializationLoop snap (a # qs) acc = initializationLoop snap qs ?acc"
      using l g by simp
    also have "\<dots> = Some (?acc\<lparr>progress := (\<lambda>q. if q \<in> set qs \<and> initializationDue snap q
                                        then map_option hd (subQueues snap q) else progress ?acc q),
                      initialDuration := (\<lambda>q. if q \<in> set qs \<and> initializationDue snap q
                                               then map_option hd (subQueues snap q)
                                               else initialDuration ?acc q)\<rparr>)"
      by (rule Cons.IH[OF pre])
    also have "\<dots> = Some (acc\<lparr>progress := (\<lambda>q. if q \<in> set (a # qs) \<and> initializationDue snap q
                                        then map_option hd (subQueues snap q) else progress acc q),
                      initialDuration := (\<lambda>q. if q \<in> set (a # qs) \<and> initializationDue snap q
                                               then map_option hd (subQueues snap q)
                                               else initialDuration acc q)\<rparr>)"
      using True l by (auto simp: fun_eq_iff)
    finally show ?thesis .
  next
    case False
    have g: "\<not> (length l > 0 \<and> progress snap a = Some 0 \<and> initialDuration snap a = Some 0)"
      using False l by (auto simp: initializationDue_def)
    have "initializationLoop snap (a # qs) acc = initializationLoop snap qs acc"
      using l g by auto
    also have "\<dots> = Some (acc\<lparr>progress := (\<lambda>q. if q \<in> set qs \<and> initializationDue snap q
                                        then map_option hd (subQueues snap q) else progress acc q),
                      initialDuration := (\<lambda>q. if q \<in> set qs \<and> initializationDue snap q
                                               then map_option hd (subQueues snap q)
                                               else initialDuration acc q)\<rparr>)"
      by (rule Cons.IH[OF pre])
    also have "\<dots> = Some (acc\<lparr>progress := (\<lambda>q. if q \<in> set (a # qs) \<and> initializationDue snap q
                                        then map_option hd (subQueues snap q) else progress acc q),
                      initialDuration := (\<lambda>q. if q \<in> set (a # qs) \<and> initializationDue snap q
                                               then map_option hd (subQueues snap q)
                                               else initialDuration acc q)\<rparr>)"
      using False by (auto simp: fun_eq_iff)
    finally show ?thesis .
  qed
qed

text \<open>
  Claim C5. On a render in which every queue of both groups has an array and no name
  occurs twice, the completion effect removes exactly the head of a queue and resets
  its initial duration to 0 when the queue is not empty, its progress is 0 and its initial
  duration is positive, and leaves the array and the initial duration of every other
  queue as they are (so a task whose initial duration is still 0 is not removed); it
  never changes a progress. The initialization effect sets progress and initial duration
  to the head value of a queue that is not empty and has progress 0 and initial duration
  0, and leaves every other queue as it is; it never changes an array.
\<close>

theorem C5_completion_initialization:
  assumes "\<forall>q \<in> set (allQueues s). subQueues s q \<noteq> None" and "distinct (allQueues s)"
  shows "\<exists>c i. completionEffect s s = Some c \<and> initializationEffect s s = Some i
           \<and> (\<forall>q \<in> set (allQueues s). \<forall>l. subQueues s q = Some l \<longrightarrow>
                 (if l \<noteq> [] \<and> progress s q = Some 0 \<and> (\<exists>d. initialDuration s q = Some d \<and> 0 < d)
                  then subQueues c q = Some (tl l) \<and> initialDuration c q = Some 0
                  else subQueues c q = Some l \<and> initialDuration c q = initialDuration s q)
                 \<and> (if l \<noteq> [] \<and> progress s q = Some 0 \<and> initialDuration s q = Some 0
                    then progress i q = Some (hd l) \<and> initialDuration i q = Some (hd l)
                    else progress i q = progress s q \<and> initialDuration i q = initialDuration s q))
           \<and> (\<forall>q. q \<notin> set (allQueues s) \<longrightarrow>
                 subQueues c q = subQueues s q \<and> initialDuration c q = initialDuration s q
                 \<and> progress i q = progress s q \<and> initialDuration i q = initialDuration s q)
           \<and> progress c = progress s \<and> subQueues i = subQueues s"
proof -
  let ?c = "s\<lparr>subQueues := (\<lambda>q. if q \<in> set (allQueues s) \<and> completionDue s q
                                 then map_option tl (subQueues s q) else subQueues s q),
              initialDuration := (\<lambda>q. if q \<in> set (allQueues s) \<and> completionDue s q
                                       then Some 0 else initialDuration s q)\<rparr>"
  let ?i = "s\<lparr>progress := (\<lambda>q. if q \<in> set (allQueues s) \<and> initializationDue s q
                                then map_option hd (subQueues s q) else progress s q),
              initialDuration := (\<lambda>q. if q \<in> set (allQueues s) \<and> initializationDue s q
                                       then map_option hd (subQueues s q)
                                       else initialDuration s q)\<rparr>"
  have c: "completionEffect s s = Some ?c"
    unfolding completionEffect_def using assms by (intro completionLoop_result) auto
  have i: "initializationEffect s s = Some ?i"
    unfolding initializationEffect_def using assms(1) by (rule initializationLoop_result)
  have 1: "\<forall>q \<in> set (allQueues s). \<forall>l. subQueues s q = Some l \<longrightarrow>
                 (if l \<noteq> [] \<and> progress s q = Some 0 \<and> (\<exists>d. initialDuration s q = Some d \<and> 0 < d)
                  then subQueues ?c q = Some (tl l) \<and> initialDuration ?c q = Some 0
                  else subQueues ?c q = Some l \<and> initialDuration ?c q = initialDuration s q)
                 \<and> (if l \<noteq> [] \<and> progress s q = Some 0 \<and> initialDuration s q = Some 0
                    then progress ?i q = Some (hd l) \<and> initialDuration ?i q = Some (hd l)
                    else progress ?i q = progress s q \<and> initialDuration ?i q = initialDuration s q)"
    by (auto simp: completionDue_def initializationDue_def)
  have 2: "\<forall>q. q \<notin> set (allQueues s) \<longrightarrow>
                 subQueues ?c q = subQueues s q \<and> initialDuration ?c q = initialDuration s q
                 \<and> progress ?i q = progress s q \<and> initialDuration ?i q = initialDuration s q"
    by simp
  have 3: "progress ?c = progress s \<and> subQueues ?i = subQueues s" by simp
  from c i 1 2 3 show ?thesis by blast
qed

theorem C5_completion_initialization_witness:
  "\<exists>c i. completionEffect dueState dueState = Some c
       \<and> initializationEffect dueState dueState = Some i
       \<and> subQueues c (High 1) = Some [7] \<and> initialDuration c (High 1) = Some 0
       \<and> subQueues c (Regular 1) = Some [12]
       \<and> progress i (Regular 1) = Some 12 \<and> initialDuration i (Regular 1) = Some 12
       \<and> progress i (High 1) = Some 0 \<and> initialDuration i (High 1) = Some 30"
proof -
  have aq: "allQueues dueState = [High 1, Regular 1, Regular 2, Regular 3, Regular 4]"
    by (simp add: dueState_def allQueues_def initialState_def)
  have h1: "\<forall>q \<in> set (allQueues dueState). subQueues dueState q \<noteq> None"
    by (simp add: aq) (simp add: dueState_def initialState_def)
  have h2: "distinct (allQueues dueState)" by (simp add: aq)
  from C5_completion_initialization[OF h1 h2] obtain c i where
    c: "completionEffect dueState dueState = Some c" and
    i: "initializationEffect dueState dueState = Some i" and
    r: "\<forall>q \<in> set (allQueues dueState). \<forall>l. subQueues dueState q = Some l \<longrightarrow>
          (if l \<noteq> [] \<and> progress dueState q = Some 0
              \<and> (\<exists>d. initialDuration dueState q = Some d \<and> 0 < d)
           then subQueues c q = Some (tl l) \<and> initialDuration c q = Some 0
           else subQueues c q = Some l \<and> initialDuration c q = initialDuration dueState q)
          \<and> (if l \<noteq> [] \<and> progress dueState q = Some 0 \<and> initialDuration dueState q = Some 0
             then progress i q = Some (hd l) \<and> initialDuration i q = Some (hd l)
             else progress i q = progress dueState q
                  \<and> initialDuration i q = initialDuration dueState q)"
    by blast
  have m1: "High 1 \<in> set (allQueues dueState)" and m2: "Regular 1 \<in> set (allQueues dueState)"
    by (simp_all add: aq)
  have q1: "subQueues dueState (High 1) = Some [30, 7]" "progress dueState (High 1) = Some 0"
    "initialDuration dueState (High 1) = Some 30"
    by (simp_all add: dueState_def initialState_def)
  have q2: "subQueues dueState (Regular 1) = Some [12]" "progress dueState (Regular 1) = Some 0"
    "initialDuration dueState (Regular 1) = Some 0"
    by (simp_all add: dueState_def initialState_def)
  from r[rule_format, OF m1 q1(1)] q1
  have a: "subQueues c (High 1) = Some [7] \<and> initialDuration c (High 1) = Some 0
           \<and> progress i (High 1) = Some 0 \<and> initialDuration i (High 1) = Some 30"
    by simp
  from r[rule_format, OF m2 q2(1)] q2
  have b: "subQueues c (Regular 1) = Some [12]
           \<and> progress i (Regular 1) = Some 12 \<and> initialDuration i (Regular 1) = Some 12"
    by simp
  from c i a b show ?thesis by blast
qed

section \<open>A task of duration 40 (claim C8)\<close>

text \<open>
  A progress of \<open>0.4 * (n + 1)\<close> becomes \<open>0.4 * n\<close>: the difference times 100 is the
  integer \<open>40 * n\<close>, which \<open>Math.round\<close> leaves alone.
\<close>

lemma mathRound_of_nat: "mathRound (of_nat k) = of_nat k"
proof -
  have "\<lfloor>(of_nat k :: rat) + 1 / 2\<rfloor> = int k"
    by (rule floor_unique) simp_all
  then show ?thesis by (simp add: mathRound_def)
qed

lemma decremented_countdown:
  assumes "l \<noteq> []"
  shows "decremented l (Some (of_nat (Suc n) * 4 / 10)) = of_nat n * 4 / 10"
proof -
  have "((of_nat (Suc n) * 4 / 10 - 4 / 10) * 100 :: rat) = of_nat (40 * n)"
    by (simp add: field_simps)
  then have "mathRound ((of_nat (Suc n) * 4 / 10 - 4 / 10) * 100) = of_nat (40 * n)"
    by (simp only: mathRound_of_nat)
  moreover have "(0::rat) < of_nat (Suc n) * 4 / 10" by simp
  ultimately show ?thesis using assms
    by (simp add: decremented_def)
qed

lemma ticks_countdown:
  assumes "\<not> decrementPaused s" and "\<forall>q \<in> set (allQueues s). subQueues s q \<noteq> None"
    and "q \<in> set (allQueues s)" and "subQueues s q = Some l" and "l \<noteq> []"
    and "progress s q = Some (of_nat n * 4 / 10)" and "j \<le> n"
  shows "\<exists>s'. ticks j s = Some s' \<and> progress s' q = Some (of_nat (n - j) * 4 / 10)
           \<and> subQueues s' = subQueues s \<and> initialDuration s' = initialDuration s
           \<and> allQueues s' = allQueues s"
  using assms
proof (induction j arbitrary: s n)
  case 0
  then show ?case by simp
next
  case (Suc j)
  from Suc.prems(7) obtain m where n: "n = Suc m" by (cases n) auto
  from progressTick_running[OF Suc.prems(1,2)] obtain updated where
    t: "progressTick s = Some (s\<lparr>progress := updated\<rparr>)" and
    u: "\<forall>q. updated q = (if q \<in> set (allQueues s)
                           then Some (decremented (the (subQueues s q)) (progress s q))
                           else progress s q)"
    by blast
  let ?s = "s\<lparr>progress := updated\<rparr>"
  have pq: "progress s q = Some (of_nat (Suc m) * 4 / 10)"
    using Suc.prems(6) unfolding n .
  have "updated q = Some (decremented (the (subQueues s q)) (progress s q))"
    using u Suc.prems(3) by simp
  then have "updated q = Some (decremented l (Some (of_nat (Suc m) * 4 / 10)))"
    by (simp only: Suc.prems(4) pq option.sel)
  then have "updated q = Some (of_nat m * 4 / 10)"
    by (simp only: decremented_countdown[OF Suc.prems(5)])
  then have p: "progress ?s q = Some (of_nat m * 4 / 10)"
    by simp
  have aq: "allQueues ?s = allQueues s" by (simp add: allQueues_def)
  have "\<exists>s'. ticks j ?s = Some s' \<and> progress s' q = Some (of_nat (m - j) * 4 / 10)
           \<and> subQueues s' = subQueues ?s \<and> initialDuration s' = initialDuration ?s
           \<and> allQueues s' = allQueues ?s"
    using Suc.prems n p aq by (intro Suc.IH[of ?s m]) simp_all
  then show ?case using t n aq by auto
qed

text \<open>
  Claim C8. Take a queue of a group whose array is not empty and whose progress and
  initial duration are both 40, with the pause off, every queue of both groups having
  an array and no name occurring twice. After each of the first 99 ticks (and before the
  first) the progress is still positive; after exactly 100 ticks it is 0, the array and
  the initial duration are unchanged, and the completion effect on that state removes the
  head task and resets the initial duration to 0.
\<close>

theorem C8_hundred_ticks:
  assumes "\<not> decrementPaused s" and "\<forall>q \<in> set (allQueues s). subQueues s q \<noteq> None"
    and "distinct (allQueues s)" and "q \<in> set (allQueues s)"
    and "subQueues s q = Some (h # rest)"
    and "progress s q = Some 40" and "initialDuration s q = Some 40"
  shows "(\<forall>j < 100. \<exists>sj p. ticks j s = Some sj \<and> progress sj q = Some p \<and> 0 < p)
         \<and> (\<exists>s' c. ticks 100 s = Some s' \<and> progress s' q = Some 0
               \<and> subQueues s' q = Some (h # rest) \<and> initialDuration s' q = Some 40
               \<and> completionEffect s' s' = Some c
               \<and> subQueues c q = Some rest \<and> initialDuration c q = Some 0)"
proof -
  have p: "progress s q = Some (of_nat 100 * 4 / 10)" using assms(6) by simp
  have ne: "h # rest \<noteq> []" by simp
  have count: "\<exists>s'. ticks j s = Some s' \<and> progress s' q = Some (of_nat (100 - j) * 4 / 10)
           \<and> subQueues s' = subQueues s \<and> initialDuration s' = initialDuration s
           \<and> allQueues s' = allQueues s" if "j \<le> 100" for j
    using ticks_countdown[OF assms(1,2,4,5) ne p that] .
  have before: "\<forall>j < 100. \<exists>sj p. ticks j s = Some sj \<and> progress sj q = Some p \<and> 0 < p"
  proof (intro allI impI)
    fix j :: nat
    assume j: "j < 100"
    then obtain sj where "ticks j s = Some sj"
      "progress sj q = Some (of_nat (100 - j) * 4 / 10)"
      using count[of j] by auto
    moreover have "(0::rat) < of_nat (100 - j) * 4 / 10" using j by simp
    ultimately show "\<exists>sj p. ticks j s = Some sj \<and> progress sj q = Some p \<and> 0 < p"
      by blast
  qed
  from count[of 100] obtain s' where
    t: "ticks 100 s = Some s'" and p0: "progress s' q = Some 0" and
    sq: "subQueues s' = subQueues s" and idur: "initialDuration s' = initialDuration s" and
    aq: "allQueues s' = allQueues s"
    by auto
  have due: "completionDue s' q"
    using p0 sq idur assms(5,7) by (simp add: completionDue_def)
  have pre: "\<forall>q \<in> set (allQueues s'). subQueues s' q \<noteq> None \<and> subQueues s' q \<noteq> None"
    using assms(2) sq aq by simp
  have dist: "distinct (allQueues s')" using assms(3) aq by simp
  let ?c = "s'\<lparr>subQueues := (\<lambda>q. if q \<in> set (allQueues s') \<and> completionDue s' q
                                   then map_option tl (subQueues s' q) else subQueues s' q),
               initialDuration := (\<lambda>q. if q \<in> set (allQueues s') \<and> completionDue s' q
                                         then Some 0 else initialDuration s' q)\<rparr>"
  have c: "completionEffect s' s' = Some ?c"
    unfolding completionEffect_def by (rule completionLoop_result[OF pre dist])
  have "subQueues ?c q = Some rest \<and> initialDuration ?c q = Some 0"
    using due assms(4,5) aq sq by simp
  with t p0 sq idur assms(5,7) c
  have "\<exists>s' c. ticks 100 s = Some s' \<and> progress s' q = Some 0
               \<and> subQueues s' q = Some (h # rest) \<and> initialDuration s' q = Some 40
               \<and> completionEffect s' s' = Some c
               \<and> subQueues c q = Some rest \<and> initialDuration c q = Some 0"
    by (metis (no_types, lifting))
  with before show ?thesis by blast
qed

theorem C8_hundred_ticks_witness:
  "(\<exists>s99 p. ticks 99 fortyState = Some s99 \<and> progress s99 (High 1) = Some p \<and> 0 < p)
   \<and> (\<exists>s' c. ticks 100 fortyState = Some s' \<and> progress s' (High 1) = Some 0
         \<and> completionEffect s' s' = Some c
         \<and> subQueues c (High 1) = Some [] \<and> initialDuration c (High 1) = Some 0)"
proof -
  have aq: "allQueues fortyState = [High 1, Regular 1, Regular 2, Regular 3, Regular 4]"
    by (simp add: fortyState_def allQueues_def initialState_def)
  have h1: "\<not> decrementPaused fortyState" by (simp add: fortyState_def initialState_def)
  have h2: "\<forall>q \<in> set (allQueues fortyState). subQueues fortyState q \<noteq> None"
    by (simp add: aq) (simp add: fortyState_def initialState_def)
  have h3: "distinct (allQueues fortyState)" by (simp add: aq)
  have h4: "High 1 \<in> set (allQueues fortyState)" by (simp add: aq)
  have h5: "subQueues fortyState (High 1) = Some (40 # [])"
    by (simp add: fortyState_def initialState_def)
  have h6: "progress fortyState (High 1) = Some 40"
    by (simp add: fortyState_def initialState_def)
  have h7: "initialDuration fortyState (High 1) = Some 40"
    by (simp add: fortyState_def initialState_def)
  have n: "(99::nat) < 100" by simp
  from C8_hundred_ticks[OF h1 h2 h3 h4 h5 h6 h7] n show ?thesis by blast
qed

section \<open>Load balancing between the queues of a group (claims C3 and C6)\<close>

text \<open>
  The scan for the maximum ends with the start pair when no queue is strictly above it,
  and otherwise with the first queue of the list that has the greatest sum.
\<close>

lemma maxScan_result:
  assumes "\<forall>q \<in> set qs. sq q \<noteq> None"
  shows "\<exists>b' m'. maxScan sq qs (b, m) = Some (b', m')
           \<and> ((b' = b \<and> m' = m \<and> (\<forall>q \<in> set qs. pendingSum sq q \<le> m))
              \<or> (\<exists>pre post. qs = pre @ b' # post \<and> m' = pendingSum sq b' \<and> m < m'
                    \<and> (\<forall>q \<in> set pre. pendingSum sq q < m')
                    \<and> (\<forall>q \<in> set post. pendingSum sq q \<le> m')))"
  using assms
proof (induction qs arbitrary: b m)
  case Nil
  then show ?case by simp
next
  case (Cons a qs)
  from Cons.prems obtain l where l: "sq a = Some l" by auto
  have ps: "pendingSum sq a = queueSum l" using l by (rule pendingSum_Some)
  have rest: "\<forall>q \<in> set qs. sq q \<noteq> None" using Cons.prems by simp
  define b0 where "b0 = (if queueSum l > m then a else b)"
  define m0 where "m0 = (if queueSum l > m then queueSum l else m)"
  have unfold: "maxScan sq (a # qs) (b, m) = maxScan sq qs (b0, m0)"
    using l by (simp add: b0_def m0_def)
  from Cons.IH[OF rest, of b0 m0] obtain b' m' where
    r: "maxScan sq qs (b0, m0) = Some (b', m')" and
    d: "(b' = b0 \<and> m' = m0 \<and> (\<forall>q \<in> set qs. pendingSum sq q \<le> m0))
        \<or> (\<exists>pre post. qs = pre @ b' # post \<and> m' = pendingSum sq b' \<and> m0 < m'
              \<and> (\<forall>q \<in> set pre. pendingSum sq q < m')
              \<and> (\<forall>q \<in> set post. pendingSum sq q \<le> m'))"
    by blast
  have m0: "m \<le> m0" "pendingSum sq a \<le> m0" by (simp_all add: m0_def ps)
  from d show ?case
  proof
    assume k: "b' = b0 \<and> m' = m0 \<and> (\<forall>q \<in> set qs. pendingSum sq q \<le> m0)"
    show ?thesis
    proof (cases "queueSum l > m")
      case True
      then have "a # qs = [] @ b' # qs \<and> m' = pendingSum sq b' \<and> m < m'
                   \<and> (\<forall>q \<in> set []. pendingSum sq q < m')
                   \<and> (\<forall>q \<in> set qs. pendingSum sq q \<le> m')"
        using k ps by (simp add: b0_def m0_def)
      then show ?thesis using unfold r by (metis (no_types, lifting))
    next
      case False
      then have "b' = b \<and> m' = m \<and> (\<forall>q \<in> set (a # qs). pendingSum sq q \<le> m)"
        using k ps by (simp add: b0_def m0_def)
      then show ?thesis using unfold r by (metis (no_types, lifting))
    qed
  next
    assume "\<exists>pre post. qs = pre @ b' # post \<and> m' = pendingSum sq b' \<and> m0 < m'
              \<and> (\<forall>q \<in> set pre. pendingSum sq q < m')
              \<and> (\<forall>q \<in> set post. pendingSum sq q \<le> m')"
    then obtain pre post where k: "qs = pre @ b' # post" "m' = pendingSum sq b'" "m0 < m'"
      "\<forall>q \<in> set pre. pendingSum sq q < m'" "\<forall>q \<in> set post. pendingSum sq q \<le> m'"
      by blast
    have "a # qs = (a # pre) @ b' # post \<and> m' = pendingSum sq b' \<and> m < m'
            \<and> (\<forall>q \<in> set (a # pre). pendingSum sq q < m')
            \<and> (\<forall>q \<in> set post. pendingSum sq q \<le> m')"
      using k m0 by auto
    then show ?thesis using unfold r by (metis (no_types, lifting))
  qed
qed

text \<open>The queue the load balancer takes a task from: the first busy one with the greatest sum.\<close>

lemma busiest_first_max:
  assumes "busy \<noteq> []" and "\<forall>q \<in> set busy. sq q \<noteq> None"
  shows "\<exists>b pre post. busiest sq busy = Some (b, pendingSum sq b) \<and> busy = pre @ b # post
           \<and> (\<forall>q \<in> set pre. pendingSum sq q < pendingSum sq b)
           \<and> (\<forall>q \<in> set post. pendingSum sq q \<le> pendingSum sq b)"
proof -
  from assms(1) obtain b0 rest where busy: "busy = b0 # rest" by (cases busy) auto
  from assms(2) busy obtain l0 where l0: "sq b0 = Some l0" by auto
  have ps0: "pendingSum sq b0 = queueSum l0" using l0 by (rule pendingSum_Some)
  from maxScan_result[OF assms(2), of b0 "queueSum l0"] obtain b' m' where
    r: "maxScan sq busy (b0, queueSum l0) = Some (b', m')" and
    d: "(b' = b0 \<and> m' = queueSum l0 \<and> (\<forall>q \<in> set busy. pendingSum sq q \<le> queueSum l0))
        \<or> (\<exists>pre post. busy = pre @ b' # post \<and> m' = pendingSum sq b' \<and> queueSum l0 < m'
              \<and> (\<forall>q \<in> set pre. pendingSum sq q < m')
              \<and> (\<forall>q \<in> set post. pendingSum sq q \<le> m'))"
    by blast
  have bb: "busiest sq busy = Some (b', m')"
    using busy l0 r by (simp add: busiest_def)
  from d show ?thesis
  proof
    assume a: "b' = b0 \<and> m' = queueSum l0 \<and> (\<forall>q \<in> set busy. pendingSum sq q \<le> queueSum l0)"
    have "busiest sq busy = Some (b', pendingSum sq b') \<and> busy = [] @ b' # rest
            \<and> (\<forall>q \<in> set []. pendingSum sq q < pendingSum sq b')
            \<and> (\<forall>q \<in> set rest. pendingSum sq q \<le> pendingSum sq b')"
      using a busy ps0 bb by simp
    then show ?thesis by blast
  next
    assume "\<exists>pre post. busy = pre @ b' # post \<and> m' = pendingSum sq b' \<and> queueSum l0 < m'
              \<and> (\<forall>q \<in> set pre. pendingSum sq q < m')
              \<and> (\<forall>q \<in> set post. pendingSum sq q \<le> m')"
    then obtain pre post where "busy = pre @ b' # post" "m' = pendingSum sq b'"
      "\<forall>q \<in> set pre. pendingSum sq q < pendingSum sq b'"
      "\<forall>q \<in> set post. pendingSum sq q \<le> pendingSum sq b'"
      by blast
    then show ?thesis using bb by blast
  qed
qed

lemma busyQueues_defined:
  "q \<in> set (busyQueues s queueGroup) \<Longrightarrow> \<exists>l. subQueues s q = Some l \<and> 1 < length l"
  by (auto simp: busyQueues_def isBusy_def split: option.splits)

lemma idle_not_busy: "isIdle s q \<Longrightarrow> \<not> isBusy s q"
  by (simp add: isIdle_def isBusy_def)

text \<open>One pass of the load balancer over a group, on the render's own state.\<close>

lemma redistributeTasks_nothing:
  assumes "\<forall>q \<in> set queueGroup. subQueues s q \<noteq> None"
    and "idleQueues s queueGroup = [] \<or> busyQueues s queueGroup = []"
  shows "redistributeTasks s queueGroup acc = Some acc"
  using assms by (auto simp: redistributeTasks_def Let_def)

lemma redistributeTasks_steal:
  assumes df: "\<forall>q \<in> set queueGroup. subQueues s q \<noteq> None"
    and idle: "idleQueues s queueGroup = i # idleRest"
    and busy: "busyQueues s queueGroup \<noteq> []"
  shows "\<exists>b pre post lb.
           busiest (subQueues s) (busyQueues s queueGroup) = Some (b, queueSum lb)
           \<and> busyQueues s queueGroup = pre @ b # post
           \<and> (\<forall>q \<in> set pre. pendingSum (subQueues s) q < queueSum lb)
           \<and> (\<forall>q \<in> set post. pendingSum (subQueues s) q \<le> queueSum lb)
           \<and> subQueues s b = Some lb \<and> 1 < length lb \<and> b \<noteq> i
           \<and> redistributeTasks s queueGroup s =
               Some (if 0 < queueSum lb
                     then s\<lparr>subQueues := (subQueues s)(b \<mapsto> butlast lb, i \<mapsto> [last lb])\<rparr>
                     else s)"
proof -
  have bdef: "\<forall>q \<in> set (busyQueues s queueGroup). subQueues s q \<noteq> None"
    using busyQueues_defined by fastforce
  from busiest_first_max[OF busy bdef] obtain b pre post where
    bb: "busiest (subQueues s) (busyQueues s queueGroup) = Some (b, pendingSum (subQueues s) b)" and
    dec: "busyQueues s queueGroup = pre @ b # post" and
    lt: "\<forall>q \<in> set pre. pendingSum (subQueues s) q < pendingSum (subQueues s) b" and
    le: "\<forall>q \<in> set post. pendingSum (subQueues s) q \<le> pendingSum (subQueues s) b"
    by blast
  have bin: "b \<in> set (busyQueues s queueGroup)" using dec by simp
  then obtain lb where lb: "subQueues s b = Some lb" "1 < length lb"
    using busyQueues_defined by blast
  have ps: "pendingSum (subQueues s) b = queueSum lb" using lb(1) by (rule pendingSum_Some)
  have iin: "i \<in> set (idleQueues s queueGroup)" using idle by simp
  then have ii: "isIdle s i" by (simp add: idleQueues_def)
  have bbusy: "isBusy s b" using bin by (simp add: busyQueues_def)
  have ne: "b \<noteq> i" using ii bbusy idle_not_busy by blast
  have si: "subQueues s i = Some []" using ii by (simp add: isIdle_def)
  have lbne: "lb \<noteq> []" using lb(2) by auto
  have mv: "moveLastTask b i (subQueues s) = Some ((subQueues s)(b \<mapsto> butlast lb, i \<mapsto> [last lb]))"
    using lb(1) lbne si ne by (simp add: moveLastTask_def Let_def)
  have "redistributeTasks s queueGroup s =
               Some (if 0 < queueSum lb
                     then s\<lparr>subQueues := (subQueues s)(b \<mapsto> butlast lb, i \<mapsto> [last lb])\<rparr>
                     else s)"
    using df idle busy bb ps lb mv by (simp add: redistributeTasks_def Let_def)
  then show ?thesis using bb dec lt le lb ne ps by (metis (no_types, lifting))
qed

lemma first_idle:
  assumes "idleQueues s queueGroup = i # idleRest"
  shows "\<exists>gpre gpost. queueGroup = gpre @ i # gpost \<and> (\<forall>q \<in> set gpre. \<not> isIdle s q) \<and> isIdle s i"
  using assms unfolding idleQueues_def by (auto simp: filter_eq_Cons_iff)

lemma butlast_keeps_head:
  assumes "1 < length (lb :: rat list)"
  shows "butlast lb \<noteq> [] \<and> hd (butlast lb) = hd lb"
proof -
  from assms obtain x y zs where "lb = x # y # zs"
    by (cases lb; cases "tl lb") auto
  then show ?thesis by simp
qed

lemma redistributeTasks_keeps_single:
  assumes df: "\<forall>q \<in> set queueGroup. subQueues s q \<noteq> None"
    and r: "redistributeTasks s queueGroup s = Some s'" and q: "subQueues s q = Some [x]"
  shows "subQueues s' q = Some [x]"
proof (cases "idleQueues s queueGroup = [] \<or> busyQueues s queueGroup = []")
  case True
  then have "s' = s" using redistributeTasks_nothing[OF df, of s] r by simp
  then show ?thesis using q by simp
next
  case False
  then obtain i idleRest where idle: "idleQueues s queueGroup = i # idleRest"
    by (cases "idleQueues s queueGroup") auto
  from False have busy: "busyQueues s queueGroup \<noteq> []" by simp
  from redistributeTasks_steal[OF df idle busy] obtain b lb where
    lb: "subQueues s b = Some lb" "1 < length lb" and
    res: "redistributeTasks s queueGroup s =
               Some (if 0 < queueSum lb
                     then s\<lparr>subQueues := (subQueues s)(b \<mapsto> butlast lb, i \<mapsto> [last lb])\<rparr>
                     else s)"
    by blast
  have "isIdle s i" using idle first_idle by blast
  then have "subQueues s i = Some []" by (simp add: isIdle_def)
  then have qi: "q \<noteq> i" using q by auto
  have qb: "q \<noteq> b" using q lb by auto
  show ?thesis using r res qi qb q by (auto split: if_splits)
qed

text \<open>
  Claim C3 says that the load balancer moves only a task waiting behind the head and
  never removes the sole remaining task of a queue. Applied to the state of its own
  render the pass does so (\<open>redistributeTasks_steal\<close>, \<open>redistributeTasks_keeps_single\<close>).
  In the component its update is queued behind the update of the completion effect of
  the same render, while its conditions still read the arrays of that render. The state
  below is reached when the tick that brings the head of \<open>high1\<close> to progress 0 and the
  end of the grace period of \<open>high2\<close> fall into one render: \<open>high1\<close> holds \<open>[1, 2]\<close> and
  counts as busy, the completion update removes the finished head 1, and the pop of the
  load balancer then takes 2, the only task left: the effects of that render leave
  \<open>high1\<close> empty and \<open>[2]\<close> in \<open>high2\<close>.
\<close>

lemma collisionState_run:
  "run [AddTask (1 / 128) high, AddTask (3 / 256) high, AdmitTask, AdmitTask, Effects,
        AddHigh, Unpause, Tick, Effects, Tick, Effects, Tick, GraceExpire (High 2)]
     initialState = Some collisionState"
  by (simp add: eval_defs mathRound_numeral collisionState_def fun_eq_iff)

theorem C3_steal_after_completion:
  "run [AddTask (1 / 128) high, AddTask (3 / 256) high, AdmitTask, AdmitTask, Effects,
        AddHigh, Unpause, Tick, Effects, Tick, Effects, Tick, GraceExpire (High 2)]
     initialState = Some collisionState
   \<and> idleQueues collisionState (highPriorityQueues collisionState) = [High 2]
   \<and> busyQueues collisionState (highPriorityQueues collisionState) = [High 1]
   \<and> subQueues collisionState (High 1) = Some [1, 2]
   \<and> completionEffect collisionState collisionState
       = Some (collisionState\<lparr>subQueues := (subQueues collisionState)(High 1 \<mapsto> [2]),
                              initialDuration := (initialDuration collisionState)(High 1 \<mapsto> 0)\<rparr>)
   \<and> redistributeTasks collisionState (highPriorityQueues collisionState) collisionState
       = Some (collisionState\<lparr>subQueues := (subQueues collisionState)(High 1 \<mapsto> [1], High 2 \<mapsto> [2])\<rparr>)
   \<and> effectsPass collisionState
       = Some (collisionState\<lparr>subQueues := (subQueues collisionState)(High 1 \<mapsto> [], High 2 \<mapsto> [2]),
                              initialDuration := (initialDuration collisionState)(High 1 \<mapsto> 0)\<rparr>)"
  by (simp add: eval_defs mathRound_numeral collisionState_def fun_eq_iff)

text \<open>
  The sums compared are those the code computes: with \<open>[2.6, 3, 0.6, 1]\<close> in the first
  busy queue and \<open>[2, 2.2, 3]\<close> in the second, the second has the greater sum.
\<close>

lemma busiest_rounding:
  "busiest [High 1 \<mapsto> [13 / 5, 3, 3 / 5, 1], High 2 \<mapsto> [2, 11 / 5, 3]] [High 1, High 2]
     = Some (High 2, queueSum [2, 11 / 5, 3])"
  using queueSum_rounds by (simp add: busiest_def)

text \<open>
  Claim C6 as stated says that the busiest queue is chosen by the remaining progress of
  the head plus the tasks waiting behind it. In the state below \<open>regular1\<close> has 1 + 10 =
  11 units left and \<open>regular2\<close> has 50 + 40 = 90, yet the load balancer picks
  \<open>regular1\<close>, whose array sums to 110, and moves its last task to the idle \<open>regular3\<close>.
\<close>

theorem C6_remaining_load_counterexample:
  "busyQueues stealChoiceState (regularPriorityQueues stealChoiceState) = [Regular 1, Regular 2]
   \<and> busiest (subQueues stealChoiceState)
        (busyQueues stealChoiceState (regularPriorityQueues stealChoiceState)) = Some (Regular 1, 110)
   \<and> specRemainingLoad stealChoiceState (Regular 1) = 11
   \<and> specRemainingLoad stealChoiceState (Regular 2) = 90
   \<and> redistributeTasks stealChoiceState (regularPriorityQueues stealChoiceState) stealChoiceState
       = Some (stealChoiceState
                 \<lparr>subQueues := (subQueues stealChoiceState)(Regular 1 \<mapsto> [100], Regular 3 \<mapsto> [10])\<rparr>)"
  by (simp add: stealChoiceState_def specRemainingLoad_def eval_defs)

text \<open>
  Claim C6, amended. The busiest queue of a group is the first of its busy queues whose
  array has the greatest sum of all its values, the sum as \<open>reduce\<close> computes it in
  double precision and the head counted with its original duration; the choice is the
  same whatever the progress and initial-duration objects hold.
\<close>

theorem C6_busiest_by_pending_sum:
  assumes "busyQueues s queueGroup \<noteq> []"
  shows "\<exists>b pre post lb.
           busiest (subQueues s) (busyQueues s queueGroup) = Some (b, queueSum lb)
           \<and> subQueues s b = Some lb
           \<and> busyQueues s queueGroup = pre @ b # post
           \<and> (\<forall>q \<in> set pre. pendingSum (subQueues s) q < queueSum lb)
           \<and> (\<forall>q \<in> set post. pendingSum (subQueues s) q \<le> queueSum lb)
           \<and> (\<forall>p d. busiest (subQueues (s\<lparr>progress := p, initialDuration := d\<rparr>))
                       (busyQueues (s\<lparr>progress := p, initialDuration := d\<rparr>) queueGroup)
                     = Some (b, queueSum lb))"
proof -
  have bdef: "\<forall>q \<in> set (busyQueues s queueGroup). subQueues s q \<noteq> None"
    using busyQueues_defined by fastforce
  from busiest_first_max[OF assms bdef] obtain b pre post where
    bb: "busiest (subQueues s) (busyQueues s queueGroup) = Some (b, pendingSum (subQueues s) b)" and
    dec: "busyQueues s queueGroup = pre @ b # post" and
    lt: "\<forall>q \<in> set pre. pendingSum (subQueues s) q < pendingSum (subQueues s) b" and
    le: "\<forall>q \<in> set post. pendingSum (subQueues s) q \<le> pendingSum (subQueues s) b"
    by blast
  have "b \<in> set (busyQueues s queueGroup)" using dec by simp
  then obtain lb where lb: "subQueues s b = Some lb" using busyQueues_defined by blast
  have ps: "pendingSum (subQueues s) b = queueSum lb" using lb by (rule pendingSum_Some)
  have same: "busyQueues (s\<lparr>progress := p, initialDuration := d\<rparr>) queueGroup = busyQueues s queueGroup"
    for p d
  proof -
    have "isBusy (s\<lparr>progress := p, initialDuration := d\<rparr>) = isBusy s"
      by (simp add: isBusy_def fun_eq_iff)
    then show ?thesis by (simp add: busyQueues_def)
  qed
  have indep: "\<forall>p d. busiest (subQueues (s\<lparr>progress := p, initialDuration := d\<rparr>))
                       (busyQueues (s\<lparr>progress := p, initialDuration := d\<rparr>) queueGroup)
                     = Some (b, queueSum lb)"
    using bb ps same by simp
  have bb': "busiest (subQueues s) (busyQueues s queueGroup) = Some (b, queueSum lb)"
    using bb ps by simp
  have lt': "\<forall>q \<in> set pre. pendingSum (subQueues s) q < queueSum lb" using lt ps by simp
  have le': "\<forall>q \<in> set post. pendingSum (subQueues s) q \<le> queueSum lb" using le ps by simp
  from bb' lb dec lt' le' indep show ?thesis by blast
qed

theorem C6_busiest_by_pending_sum_witness:
  "\<exists>pre post. busiest (subQueues stealChoiceState)
        (busyQueues stealChoiceState (regularPriorityQueues stealChoiceState)) = Some (Regular 1, 110)
     \<and> busyQueues stealChoiceState (regularPriorityQueues stealChoiceState) = pre @ Regular 1 # post"
proof -
  have bq: "busyQueues stealChoiceState (regularPriorityQueues stealChoiceState) = [Regular 1, Regular 2]"
    by (simp add: stealChoiceState_def eval_defs)
  then have ne: "busyQueues stealChoiceState (regularPriorityQueues stealChoiceState) \<noteq> []"
    by simp
  from C6_busiest_by_pending_sum[OF ne] obtain b pre post lb where
    k: "busiest (subQueues stealChoiceState)
          (busyQueues stealChoiceState (regularPriorityQueues stealChoiceState)) = Some (b, queueSum lb)"
       "subQueues stealChoiceState b = Some lb"
       "busyQueues stealChoiceState (regularPriorityQueues stealChoiceState) = pre @ b # post"
       "\<forall>q \<in> set pre. pendingSum (subQueues stealChoiceState) q < queueSum lb"
       "\<forall>q \<in> set post. pendingSum (subQueues stealChoiceState) q \<le> queueSum lb"
    by blast
  have s1: "subQueues stealChoiceState (Regular 1) = Some [100, 10]"
    and s2: "subQueues stealChoiceState (Regular 2) = Some [50, 40]"
    by (simp_all add: stealChoiceState_def initialState_def)
  have p1: "pendingSum (subQueues stealChoiceState) (Regular 1) = 110"
    and p2: "pendingSum (subQueues stealChoiceState) (Regular 2) = 90"
    using pendingSum_Some[of "subQueues stealChoiceState" "Regular 1", OF s1]
      pendingSum_Some[of "subQueues stealChoiceState" "Regular 2", OF s2]
    by (simp_all add: queueSum_eval)
  have "b \<in> set [Regular 1, Regular 2]" using k(3) bq by (metis in_set_conv_decomp)
  then have "b = Regular 1 \<or> b = Regular 2" by simp
  then have b1: "b = Regular 1"
  proof
    assume "b = Regular 1" then show ?thesis .
  next
    assume b2: "b = Regular 2"
    then have lb: "lb = [50, 40]" using k(2) s2 by simp
    have "pre @ Regular 2 # post = [Regular 1, Regular 2]" using k(3) bq b2 by simp
    then have "Regular 1 \<in> set pre" by (cases pre) auto
    then have "pendingSum (subQueues stealChoiceState) (Regular 1) < queueSum lb"
      using k(4) by blast
    then show ?thesis using p1 lb by (simp add: queueSum_eval)
  qed
  then have "lb = [100, 10]" using k(2) s1 by simp
  then have "queueSum lb = 110" by (simp add: queueSum_eval)
  with k(1,3) b1 show ?thesis by auto
qed

section \<open>Shrinking a group (claim C2)\<close>

text \<open>
  Whenever the removed queue has a task in flight, the remaining progress and the whole
  array, head included, are appended to the first least-loaded remaining queue.
\<close>

lemma redistributeRemoved_in_flight:
  assumes "butlast names \<noteq> []" and "\<forall>q \<in> set (butlast names). subQueues s q \<noteq> None"
    and "subQueues s (last names) = Some (h # waiting)"
    and "progress s (last names) = Some p" and "0 < p"
  shows "\<exists>target l. leastLoaded (subQueues s) (butlast names) = Some target
           \<and> subQueues s target = Some l
           \<and> redistributeRemoved names s =
               Some ((subQueues s)(target \<mapsto> l @ p # h # waiting, last names := None))"
proof -
  from leastLoaded_first_min[OF assms(1,2)] obtain target pre post where
    ll: "leastLoaded (subQueues s) (butlast names) = Some target" and
    dec: "butlast names = pre @ target # post"
    by blast
  have "target \<in> set (butlast names)" using dec by simp
  then obtain l where l: "subQueues s target = Some l" using assms(2) by auto
  have "redistributeRemoved names s =
               Some ((subQueues s)(target \<mapsto> l @ p # h # waiting, last names := None))"
    using assms(3,4,5) ll l by (simp add: redistributeRemoved_def Let_def)
  then show ?thesis using ll l by blast
qed

text \<open>
  Claim C2 says that a shrink hands over the remaining in-flight value of the removed
  queue and then the tasks waiting behind its head, so that no value is duplicated. The
  code appends the remaining progress and then the whole array of the removed queue,
  whose first element is the in-flight head itself. In the state below the removed
  \<open>regular2\<close> holds \<open>[40, 10, 20]\<close> with 5 units of its head left: \<open>regular1\<close> receives
  \<open>[5, 40, 10, 20]\<close>, not \<open>[5, 10, 20]\<close>, and the pending values of the group, 77 in all
  before the shrink, sum to 82 after it.
\<close>

theorem C2_shrink_requeues_head_twice:
  "removeRegularPriorityQueue shrinkState
     = Some (shrinkState
               \<lparr>subQueues := (subQueues shrinkState)(Regular 1 \<mapsto> [7] @ [5, 40, 10, 20],
                                                     Regular 2 := None),
                regularPriorityQueues := [Regular 1],
                progress := (progress shrinkState)(Regular 2 := None),
                initialDuration := (initialDuration shrinkState)(Regular 2 := None)\<rparr>)
   \<and> [7] @ [5, 40, 10, 20] \<noteq> [7] @ [5, 10, 20 :: rat]
   \<and> pendingSum (subQueues shrinkState) (Regular 1)
       + pendingSum (subQueues shrinkState) (Regular 2) = 77
   \<and> pendingSum ((subQueues shrinkState)(Regular 1 \<mapsto> [7] @ [5, 40, 10, 20], Regular 2 := None))
        (Regular 1) = 82"
  by (simp add: shrinkState_def pendingSum_def eval_defs)

section \<open>Well-formed states\<close>

text \<open>
  \<open>wellFormed\<close> holds in the initial state and is kept by every event, and no event
  fails in a well-formed state. The group lists are always \<open>high1 .. highN\<close> and
  \<open>regular1 .. regularM\<close>, so a new name is fresh and no name occurs twice.
\<close>

lemma queueOk_cong:
  "subQueues s' q = subQueues s q \<Longrightarrow> progress s' q = progress s q
   \<Longrightarrow> initialDuration s' q = initialDuration s q \<Longrightarrow> queueOk s' q = queueOk s q"
  by (simp add: queueOk_def)

lemma queueOkI:
  "subQueues s q = Some l \<Longrightarrow> progress s q = Some p \<Longrightarrow> initialDuration s q = Some d
   \<Longrightarrow> list_all (\<lambda>v. 0 \<le> v) l \<Longrightarrow> 0 \<le> p \<Longrightarrow> p \<le> d \<Longrightarrow> queueOk s q"
  by (auto simp: queueOk_def)

lemma queueOkE:
  assumes "queueOk s q"
  obtains l p d where "subQueues s q = Some l" "progress s q = Some p"
    "initialDuration s q = Some d" "list_all (\<lambda>v. 0 \<le> v) l" "0 \<le> p" "p \<le> d"
  using assms by (auto simp: queueOk_def)

lemma names_distinct: "distinct (map High [1..<Suc n] @ map Regular [1..<Suc m])"
  by (auto simp: distinct_map inj_on_def)

lemma wellFormedI:
  assumes "highPriorityQueues s \<noteq> []" and "regularPriorityQueues s \<noteq> []"
    and "highPriorityQueues s = map High [1..<Suc (length (highPriorityQueues s))]"
    and "regularPriorityQueues s = map Regular [1..<Suc (length (regularPriorityQueues s))]"
    and "list_all (queueOk s) (allQueues s)"
    and "list_all (\<lambda>t. 0 \<le> task_value t) (queue s)"
  shows "wellFormed s"
  using assms unfolding wellFormed_def by blast

lemma wellFormedD:
  assumes "wellFormed s"
  shows "highPriorityQueues s \<noteq> []" and "regularPriorityQueues s \<noteq> []"
    and "highPriorityQueues s = map High [1..<Suc (length (highPriorityQueues s))]"
    and "regularPriorityQueues s = map Regular [1..<Suc (length (regularPriorityQueues s))]"
    and "list_all (queueOk s) (allQueues s)"
    and "list_all (\<lambda>t. 0 \<le> task_value t) (queue s)"
  using assms unfolding wellFormed_def by blast+

lemma wellFormed_distinct: "wellFormed s \<Longrightarrow> distinct (allQueues s)"
proof -
  assume w: "wellFormed s"
  have "allQueues s = map High [1..<Suc (length (highPriorityQueues s))]
                      @ map Regular [1..<Suc (length (regularPriorityQueues s))]"
    using w unfolding wellFormed_def allQueues_def by metis
  then show ?thesis using names_distinct by simp
qed

lemma wellFormed_queueOk: "wellFormed s \<Longrightarrow> q \<in> set (allQueues s) \<Longrightarrow> queueOk s q"
  by (simp add: wellFormed_def list_all_iff)

lemma wellFormed_defined: "wellFormed s \<Longrightarrow> \<forall>q \<in> set (allQueues s). subQueues s q \<noteq> None"
  using wellFormed_queueOk by (fastforce simp: queueOk_def)

lemma wellFormed_same_groups:
  assumes "wellFormed s" and "highPriorityQueues s' = highPriorityQueues s"
    and "regularPriorityQueues s' = regularPriorityQueues s"
    and "\<forall>q \<in> set (allQueues s). queueOk s' q"
    and "list_all (\<lambda>t. 0 \<le> task_value t) (queue s')"
  shows "wellFormed s'"
  using assms by (simp add: wellFormed_def allQueues_def list_all_iff)

lemma wellFormed_initialState: "wellFormed initialState"
  by (simp add: wellFormed_def allQueues_def queueOk_def initialState_def upt_rec)

lemma generatedValue_nonneg: "0 \<le> r \<Longrightarrow> 0 \<le> generatedValue r"
  by (simp add: generatedValue_def toDouble_nonneg)

lemma wellFormed_addTask: "wellFormed s \<Longrightarrow> 0 \<le> r \<Longrightarrow> wellFormed (addTask r ty s)"
  by (rule wellFormed_same_groups[of s])
     (auto simp: addTask_def wellFormed_def allQueues_def queueOk_def list_all_iff
        generatedValue_nonneg)

lemma wellFormed_unpause: "wellFormed s \<Longrightarrow> wellFormed (unpause s)"
  by (rule wellFormed_same_groups[of s])
     (auto simp: unpause_def wellFormed_def allQueues_def queueOk_def list_all_iff)

lemma wellFormed_graceExpire: "wellFormed s \<Longrightarrow> wellFormed (graceExpire n s)"
  by (rule wellFormed_same_groups[of s])
     (auto simp: graceExpire_def wellFormed_def allQueues_def queueOk_def list_all_iff)

text \<open>Admission.\<close>

lemma admitTask_wellFormed:
  assumes w: "wellFormed s"
  shows "\<exists>s'. admitTask s = Some s' \<and> wellFormed s'
           \<and> highPriorityQueues s' = highPriorityQueues s
           \<and> regularPriorityQueues s' = regularPriorityQueues s
           \<and> progress s' = progress s \<and> initialDuration s' = initialDuration s
           \<and> (\<forall>q l. subQueues s q = Some l \<longrightarrow> (\<exists>ext. subQueues s' q = Some (l @ ext)))"
proof (cases "queue s")
  case Nil
  then have "admitTask s = Some s" by (simp add: admitTask_def)
  then show ?thesis using w by auto
next
  case (Cons t rest)
  define names where "names = (if task_type t = high then highPriorityQueues s
                               else regularPriorityQueues s)"
  have sub: "set names \<subseteq> set (allQueues s)" by (auto simp: names_def allQueues_def)
  have ne: "names \<noteq> []" using w by (simp add: names_def wellFormed_def)
  have df: "\<forall>q \<in> set names. subQueues s q \<noteq> None"
    using wellFormed_defined[OF w] sub by blast
  from admitTask_nonempty[OF Cons names_def ne df] obtain target pre post l where
    dec: "names = pre @ target # post" and l: "subQueues s target = Some l" and
    r: "admitTask s = Some (s\<lparr>subQueues := (subQueues s)(target \<mapsto> l @ [task_value t]),
                               queue := rest, decrementPaused := True\<rparr>)"
    by blast
  let ?s = "s\<lparr>subQueues := (subQueues s)(target \<mapsto> l @ [task_value t]),
               queue := rest, decrementPaused := True\<rparr>"
  have tv: "0 \<le> task_value t" and rv: "list_all (\<lambda>t. 0 \<le> task_value t) rest"
    using w Cons by (simp_all add: wellFormed_def)
  have ok: "\<forall>q \<in> set (allQueues s). queueOk ?s q"
  proof
    fix q assume q: "q \<in> set (allQueues s)"
    from wellFormed_queueOk[OF w q] obtain lq p d where
      k: "subQueues s q = Some lq" "progress s q = Some p" "initialDuration s q = Some d"
         "list_all (\<lambda>v. 0 \<le> v) lq" "0 \<le> p" "p \<le> d"
      by (rule queueOkE)
    show "queueOk ?s q"
    proof (cases "q = target")
      case True
      then have "lq = l" using k(1) l by simp
      then show ?thesis using True k tv by (auto intro!: queueOkI[of _ _ "l @ [task_value t]" p d])
    next
      case False
      then show ?thesis using k by (auto intro!: queueOkI[of _ _ lq p d])
    qed
  qed
  have wf: "wellFormed ?s"
    by (rule wellFormed_same_groups[OF w]) (use ok rv in simp_all)
  have ext: "\<forall>q lq. subQueues s q = Some lq \<longrightarrow> (\<exists>ext. subQueues ?s q = Some (lq @ ext))"
    using l by auto
  from r wf ext show ?thesis by auto
qed

text \<open>Growing a group.\<close>

lemma fresh_names:
  assumes "wellFormed s"
  shows "High (length (highPriorityQueues s) + 1) \<notin> set (allQueues s)"
    and "Regular (length (regularPriorityQueues s) + 1) \<notin> set (allQueues s)"
proof -
  have h: "set (highPriorityQueues s) = High ` {1..<Suc (length (highPriorityQueues s))}"
    and r: "set (regularPriorityQueues s) = Regular ` {1..<Suc (length (regularPriorityQueues s))}"
    using assms unfolding wellFormed_def by (metis set_map set_upt)+
  show "High (length (highPriorityQueues s) + 1) \<notin> set (allQueues s)"
    unfolding allQueues_def using h r by auto
  show "Regular (length (regularPriorityQueues s) + 1) \<notin> set (allQueues s)"
    unfolding allQueues_def using h r by auto
qed

lemma append_next_name: "xs = map f [1..<Suc (length xs)]
    \<Longrightarrow> xs @ [f (length xs + 1)] = map f [1..<Suc (length (xs @ [f (length xs + 1)]))]"
  by (metis Suc_eq_plus1 le_add2 length_append_singleton list.simps(8,9) map_append upt_Suc_append)

lemma addHighPriorityQueue_wellFormed:
  assumes w: "wellFormed s"
  shows "wellFormed (addHighPriorityQueue s)"
proof -
  let ?n = "High (length (highPriorityQueues s) + 1)"
  let ?s = "addHighPriorityQueue s"
  have fresh: "?n \<notin> set (allQueues s)" using fresh_names[OF w] by simp
  have old: "queueOk ?s q" if "q \<in> set (allQueues s)" for q
  proof -
    have "q \<noteq> ?n" using that fresh by auto
    then have "queueOk ?s q = queueOk s q"
      by (intro queueOk_cong) (simp_all add: addHighPriorityQueue_def Let_def)
    then show ?thesis using wellFormed_queueOk[OF w that] by simp
  qed
  have new: "queueOk ?s ?n"
    by (rule queueOkI[of _ _ "[]" 0 0]) (simp_all add: addHighPriorityQueue_def Let_def)
  have aq: "allQueues ?s = highPriorityQueues s @ [?n] @ regularPriorityQueues s"
    by (simp add: addHighPriorityQueue_def allQueues_def Let_def)
  have hs: "highPriorityQueues ?s = highPriorityQueues s @ [?n]"
    and rs: "regularPriorityQueues ?s = regularPriorityQueues s" and qs: "queue ?s = queue s"
    by (simp_all add: addHighPriorityQueue_def Let_def)
  have names: "highPriorityQueues ?s = map High [1..<Suc (length (highPriorityQueues ?s))]"
    unfolding hs using w append_next_name[of "highPriorityQueues s" High]
    by (simp add: wellFormed_def)
  have all: "list_all (queueOk ?s) (allQueues ?s)"
    unfolding aq using old new by (auto simp: list_all_iff allQueues_def)
  show ?thesis
    unfolding wellFormed_def using names all w hs rs qs
    by (simp add: wellFormed_def)
qed

lemma addRegularPriorityQueue_wellFormed:
  assumes w: "wellFormed s"
  shows "wellFormed (addRegularPriorityQueue s)"
proof -
  let ?n = "Regular (length (regularPriorityQueues s) + 1)"
  let ?s = "addRegularPriorityQueue s"
  have fresh: "?n \<notin> set (allQueues s)" using fresh_names[OF w] by simp
  have old: "queueOk ?s q" if "q \<in> set (allQueues s)" for q
  proof -
    have "q \<noteq> ?n" using that fresh by auto
    then have "queueOk ?s q = queueOk s q"
      by (intro queueOk_cong) (simp_all add: addRegularPriorityQueue_def Let_def)
    then show ?thesis using wellFormed_queueOk[OF w that] by simp
  qed
  have new: "queueOk ?s ?n"
    by (rule queueOkI[of _ _ "[]" 0 0]) (simp_all add: addRegularPriorityQueue_def Let_def)
  have aq: "allQueues ?s = highPriorityQueues s @ regularPriorityQueues s @ [?n]"
    by (simp add: addRegularPriorityQueue_def allQueues_def Let_def)
  have rs: "regularPriorityQueues ?s = regularPriorityQueues s @ [?n]"
    and hs: "highPriorityQueues ?s = highPriorityQueues s" and qs: "queue ?s = queue s"
    by (simp_all add: addRegularPriorityQueue_def Let_def)
  have names: "regularPriorityQueues ?s = map Regular [1..<Suc (length (regularPriorityQueues ?s))]"
    unfolding rs using w append_next_name[of "regularPriorityQueues s" Regular]
    by (simp add: wellFormed_def)
  have all: "list_all (queueOk ?s) (allQueues ?s)"
    unfolding aq using old new by (auto simp: list_all_iff allQueues_def)
  show ?thesis
    unfolding wellFormed_def using names all w hs rs qs
    by (simp add: wellFormed_def)
qed

text \<open>The progress clock.\<close>

lemma mathRound_le: "mathRound x \<le> x + 1 / 2"
  by (simp add: mathRound_def)

lemma decremented_le:
  assumes "0 \<le> p"
  shows "decremented l (Some p) \<le> p"
proof (cases "length l > 0 \<and> p > 0")
  case True
  have "mathRound ((p - 4 / 10) * 100) / 100 \<le> ((p - 4 / 10) * 100 + 1 / 2) / 100"
    using mathRound_le[of "(p - 4 / 10) * 100"] by (simp add: divide_right_mono)
  also have "\<dots> \<le> p" by (simp add: field_simps)
  finally have "mathRound ((p - 4 / 10) * 100) / 100 \<le> p" .
  then show ?thesis using True assms by (simp add: decremented_def)
next
  case False
  then show ?thesis using assms by (auto simp: decremented_def)
qed

lemma progressTick_wellFormed:
  assumes w: "wellFormed s"
  shows "\<exists>s'. progressTick s = Some s' \<and> wellFormed s'
           \<and> highPriorityQueues s' = highPriorityQueues s
           \<and> regularPriorityQueues s' = regularPriorityQueues s
           \<and> subQueues s' = subQueues s \<and> initialDuration s' = initialDuration s
           \<and> (\<forall>q. progress s q = Some 0 \<longrightarrow> progress s' q = Some 0)"
proof (cases "decrementPaused s")
  case True
  then have "progressTick s = Some s" by (rule progressTick_paused)
  then show ?thesis using w by auto
next
  case False
  from progressTick_running[OF False wellFormed_defined[OF w]] obtain updated where
    t: "progressTick s = Some (s\<lparr>progress := updated\<rparr>)" and
    u: "\<forall>q. updated q = (if q \<in> set (allQueues s)
                           then Some (decremented (the (subQueues s q)) (progress s q))
                           else progress s q)"
    by blast
  let ?s = "s\<lparr>progress := updated\<rparr>"
  have ok: "\<forall>q \<in> set (allQueues s). queueOk ?s q"
  proof
    fix q assume q: "q \<in> set (allQueues s)"
    from wellFormed_queueOk[OF w q] obtain l p d where
      k: "subQueues s q = Some l" "progress s q = Some p" "initialDuration s q = Some d"
         "list_all (\<lambda>v. 0 \<le> v) l" "0 \<le> p" "p \<le> d"
      by (rule queueOkE)
    have up: "updated q = Some (decremented l (Some p))" using u q k by simp
    have "decremented l (Some p) \<le> d" using decremented_le[OF k(5), of l] k(6) by simp
    then show "queueOk ?s q"
      using k up decremented_nonneg[of l "Some p"]
      by (auto intro!: queueOkI[of _ _ l "decremented l (Some p)" d])
  qed
  have wf: "wellFormed ?s"
    by (rule wellFormed_same_groups[OF w]) (use ok w in \<open>simp_all add: wellFormed_def\<close>)
  have z: "\<forall>q. progress s q = Some 0 \<longrightarrow> progress ?s q = Some 0"
    using u by (simp add: decremented_cases)
  from t wf z show ?thesis by auto
qed

text \<open>Shrinking a group.\<close>

lemma last_not_in_butlast:
  assumes "distinct xs" and "xs \<noteq> []"
  shows "last xs \<notin> set (butlast xs)"
proof -
  have "distinct (butlast xs @ [last xs])" using assms by simp
  then show ?thesis by simp
qed

lemma redistributeRemoved_result:
  assumes len: "1 < length names" and dist: "distinct names"
    and ok: "\<forall>q \<in> set names. queueOk s q"
  shows "\<exists>target l moved.
           target \<in> set (butlast names) \<and> target \<noteq> last names
           \<and> subQueues s target = Some l \<and> list_all (\<lambda>v. 0 \<le> v) moved
           \<and> redistributeRemoved names s =
               Some ((subQueues s)(target \<mapsto> l @ moved, last names := None))"
proof -
  have ne: "names \<noteq> []" using len by auto
  have bne: "butlast names \<noteq> []" using len by (cases names; cases "tl names") auto
  have lin: "last names \<in> set names" using ne by simp
  from ok lin have "queueOk s (last names)" by blast
  then obtain lq p d where
    k: "subQueues s (last names) = Some lq" "progress s (last names) = Some p"
       "list_all (\<lambda>v. 0 \<le> v) lq" "0 \<le> p"
    by (auto simp: queueOk_def)
  have bdef: "\<forall>q \<in> set (butlast names). subQueues s q \<noteq> None"
    using ok by (auto dest!: in_set_butlastD simp: queueOk_def)
  from leastLoaded_first_min[OF bne bdef] obtain target pre post where
    ll: "leastLoaded (subQueues s) (butlast names) = Some target" and
    dec: "butlast names = pre @ target # post"
    by blast
  have tin: "target \<in> set (butlast names)" using dec by simp
  then obtain l where l: "subQueues s target = Some l" using bdef by auto
  have tne: "target \<noteq> last names" using tin last_not_in_butlast[OF dist ne] by auto
  define cur where "cur = (if p > 0 then [p] else [])"
  have curok: "list_all (\<lambda>v. 0 \<le> v) (cur @ lq)" using k by (simp add: cur_def)
  show ?thesis
  proof (cases "lq \<noteq> [] \<or> p > 0")
    case True
    have "redistributeRemoved names s =
            Some ((subQueues s)(target \<mapsto> l @ (cur @ lq), last names := None))"
      using True k ll l by (auto simp: redistributeRemoved_def Let_def cur_def)
    then show ?thesis using tin tne l curok by blast
  next
    case False
    have "redistributeRemoved names s = Some ((subQueues s)(last names := None))"
      using False k by (auto simp: redistributeRemoved_def Let_def)
    moreover have "(subQueues s)(target \<mapsto> l @ []) = subQueues s"
      using l by (simp add: map_upd_triv)
    ultimately have "redistributeRemoved names s =
            Some ((subQueues s)(target \<mapsto> l @ [], last names := None))"
      by simp
    moreover have "list_all (\<lambda>v. 0 \<le> v) ([] :: rat list)" by simp
    ultimately show ?thesis using tin tne l by blast
  qed
qed

lemma shrunk_queueOk:
  assumes w: "wellFormed s" and q: "q \<in> set (allQueues s)" and qr: "q \<noteq> gone"
    and sq: "subQueues s' = (subQueues s)(target \<mapsto> l @ moved, gone := None)"
    and pr: "progress s' = (progress s)(gone := None)"
    and idur: "initialDuration s' = (initialDuration s)(gone := None)"
    and l: "subQueues s target = Some l" and mv: "list_all (\<lambda>v. 0 \<le> v) moved"
  shows "queueOk s' q \<and> progress s' q = progress s q
         \<and> initialDuration s' q = initialDuration s q
         \<and> (\<forall>lq. subQueues s q = Some lq \<longrightarrow> (\<exists>ext. subQueues s' q = Some (lq @ ext)))"
proof -
  from wellFormed_queueOk[OF w q] obtain lq p d where
    k: "subQueues s q = Some lq" "progress s q = Some p" "initialDuration s q = Some d"
       "list_all (\<lambda>v. 0 \<le> v) lq" "0 \<le> p" "p \<le> d"
    by (rule queueOkE)
  show ?thesis
  proof (cases "q = target")
    case True
    then have "lq = l" using k(1) l by simp
    then have "queueOk s' q"
      using True k mv qr sq pr idur by (auto intro!: queueOkI[of _ _ "l @ moved" p d])
    then show ?thesis using True qr sq pr idur l by auto
  next
    case False
    then have "queueOk s' q"
      using k qr sq pr idur by (auto intro!: queueOkI[of _ _ lq p d])
    then show ?thesis using False qr sq pr idur by auto
  qed
qed

lemma butlast_names: "xs = map f [1..<Suc (length xs)]
    \<Longrightarrow> butlast xs = map f [1..<Suc (length (butlast xs))]"
proof -
  assume a: "xs = map f [1..<Suc (length xs)]"
  have "butlast xs = map f (butlast [1..<Suc (length xs)])"
    by (subst a) (simp only: map_butlast)
  also have "\<dots> = map f [1..<length xs]" by simp
  also have "\<dots> = map f [1..<Suc (length (butlast xs))]"
    by (cases "xs = []") simp_all
  finally show ?thesis .
qed

lemma removeHighPriorityQueue_wellFormed:
  assumes w: "wellFormed s"
  shows "\<exists>s'. removeHighPriorityQueue s = Some s' \<and> wellFormed s'
           \<and> (\<forall>q \<in> set (allQueues s).
                 length (highPriorityQueues s) \<le> 1 \<or> q \<noteq> last (highPriorityQueues s)
                 \<longrightarrow> q \<in> set (allQueues s') \<and> progress s' q = progress s q
                     \<and> initialDuration s' q = initialDuration s q
                     \<and> (\<forall>lq. subQueues s q = Some lq
                           \<longrightarrow> (\<exists>ext. subQueues s' q = Some (lq @ ext))))"
proof (cases "length (highPriorityQueues s) \<le> 1")
  case True
  then have "removeHighPriorityQueue s = Some s" by (simp add: removeHighPriorityQueue_def)
  then show ?thesis using w by auto
next
  case False
  let ?names = "highPriorityQueues s"
  let ?gone = "last ?names"
  have len: "1 < length ?names" using False by simp
  have ne: "?names \<noteq> []" using len by auto
  have dall: "distinct (allQueues s)" by (rule wellFormed_distinct[OF w])
  then have dist: "distinct ?names" by (simp add: allQueues_def)
  have ok: "\<forall>q \<in> set ?names. queueOk s q"
    using wellFormed_queueOk[OF w] by (simp add: allQueues_def)
  from redistributeRemoved_result[OF len dist ok] obtain target l moved where
    k: "target \<in> set (butlast ?names)" "target \<noteq> ?gone" "subQueues s target = Some l"
       "list_all (\<lambda>v. 0 \<le> v) moved"
       "redistributeRemoved ?names s = Some ((subQueues s)(target \<mapsto> l @ moved, ?gone := None))"
    by blast
  let ?s = "s\<lparr>subQueues := (subQueues s)(target \<mapsto> l @ moved, ?gone := None),
               highPriorityQueues := butlast ?names,
               progress := (progress s)(?gone := None),
               initialDuration := (initialDuration s)(?gone := None),
               newlyCreatedQueues := newlyCreatedQueues s - {?gone}\<rparr>"
  have r: "removeHighPriorityQueue s = Some ?s"
    using False k(5) by (simp add: removeHighPriorityQueue_def Let_def)
  have gone_h: "?gone \<notin> set (butlast ?names)" by (rule last_not_in_butlast[OF dist ne])
  have gone_r: "?gone \<notin> set (regularPriorityQueues s)"
    using dall ne unfolding allQueues_def by (auto dest: last_in_set)
  have aq: "allQueues ?s = butlast ?names @ regularPriorityQueues s"
    by (simp add: allQueues_def)
  have keep: "q \<in> set (allQueues ?s) \<longleftrightarrow> q \<in> set (allQueues s) \<and> q \<noteq> ?gone" for q
  proof -
    have "set ?names = insert ?gone (set (butlast ?names))"
      using ne by (metis append_butlast_last_id list.simps(15) rotate1.simps(2) set_rotate1)
    then show ?thesis unfolding aq allQueues_def using gone_h gone_r by auto
  qed
  have frame: "queueOk ?s q \<and> progress ?s q = progress s q
         \<and> initialDuration ?s q = initialDuration s q
         \<and> (\<forall>lq. subQueues s q = Some lq \<longrightarrow> (\<exists>ext. subQueues ?s q = Some (lq @ ext)))"
    if "q \<in> set (allQueues s)" "q \<noteq> ?gone" for q
    by (rule shrunk_queueOk[OF w that, of ?s target l moved]) (use k in simp_all)
  have all: "list_all (queueOk ?s) (allQueues ?s)"
    unfolding list_all_iff using keep frame by blast
  have hs: "highPriorityQueues ?s = butlast ?names"
    and rs: "regularPriorityQueues ?s = regularPriorityQueues s" and qs: "queue ?s = queue s"
    by simp_all
  have hn: "highPriorityQueues ?s = map High [1..<Suc (length (highPriorityQueues ?s))]"
    unfolding hs by (rule butlast_names[OF wellFormedD(3)[OF w]])
  have bne: "highPriorityQueues ?s \<noteq> []"
    unfolding hs using len by (cases ?names; cases "tl ?names") auto
  have r2: "regularPriorityQueues ?s \<noteq> []" unfolding rs by (rule wellFormedD(2)[OF w])
  have rn: "regularPriorityQueues ?s = map Regular [1..<Suc (length (regularPriorityQueues ?s))]"
    unfolding rs by (rule wellFormedD(4)[OF w])
  have qn: "list_all (\<lambda>t. 0 \<le> task_value t) (queue ?s)"
    unfolding qs by (rule wellFormedD(6)[OF w])
  have wf: "wellFormed ?s"
    by (rule wellFormedI[OF bne r2 hn rn all qn])
  show ?thesis using r wf keep frame False by (metis (no_types, lifting))
qed

lemma removeRegularPriorityQueue_wellFormed:
  assumes w: "wellFormed s"
  shows "\<exists>s'. removeRegularPriorityQueue s = Some s' \<and> wellFormed s'
           \<and> (\<forall>q \<in> set (allQueues s).
                 length (regularPriorityQueues s) \<le> 1 \<or> q \<noteq> last (regularPriorityQueues s)
                 \<longrightarrow> q \<in> set (allQueues s') \<and> progress s' q = progress s q
                     \<and> initialDuration s' q = initialDuration s q
                     \<and> (\<forall>lq. subQueues s q = Some lq
                           \<longrightarrow> (\<exists>ext. subQueues s' q = Some (lq @ ext))))"
proof (cases "length (regularPriorityQueues s) \<le> 1")
  case True
  then have "removeRegularPriorityQueue s = Some s" by (simp add: removeRegularPriorityQueue_def)
  then show ?thesis using w by auto
next
  case False
  let ?names = "regularPriorityQueues s"
  let ?gone = "last ?names"
  have len: "1 < length ?names" using False by simp
  have ne: "?names \<noteq> []" using len by auto
  have dall: "distinct (allQueues s)" by (rule wellFormed_distinct[OF w])
  then have dist: "distinct ?names" by (simp add: allQueues_def)
  have ok: "\<forall>q \<in> set ?names. queueOk s q"
    using wellFormed_queueOk[OF w] by (simp add: allQueues_def)
  from redistributeRemoved_result[OF len dist ok] obtain target l moved where
    k: "target \<in> set (butlast ?names)" "target \<noteq> ?gone" "subQueues s target = Some l"
       "list_all (\<lambda>v. 0 \<le> v) moved"
       "redistributeRemoved ?names s = Some ((subQueues s)(target \<mapsto> l @ moved, ?gone := None))"
    by blast
  let ?s = "s\<lparr>subQueues := (subQueues s)(target \<mapsto> l @ moved, ?gone := None),
               regularPriorityQueues := butlast ?names,
               progress := (progress s)(?gone := None),
               initialDuration := (initialDuration s)(?gone := None),
               newlyCreatedQueues := newlyCreatedQueues s - {?gone}\<rparr>"
  have r: "removeRegularPriorityQueue s = Some ?s"
    using False k(5) by (simp add: removeRegularPriorityQueue_def Let_def)
  have gone_r: "?gone \<notin> set (butlast ?names)" by (rule last_not_in_butlast[OF dist ne])
  have gone_h: "?gone \<notin> set (highPriorityQueues s)"
    using dall ne unfolding allQueues_def by (auto dest: last_in_set)
  have aq: "allQueues ?s = highPriorityQueues s @ butlast ?names"
    by (simp add: allQueues_def)
  have keep: "q \<in> set (allQueues ?s) \<longleftrightarrow> q \<in> set (allQueues s) \<and> q \<noteq> ?gone" for q
  proof -
    have "set ?names = insert ?gone (set (butlast ?names))"
      using ne by (metis append_butlast_last_id list.simps(15) rotate1.simps(2) set_rotate1)
    then show ?thesis unfolding aq allQueues_def using gone_h gone_r by auto
  qed
  have frame: "queueOk ?s q \<and> progress ?s q = progress s q
         \<and> initialDuration ?s q = initialDuration s q
         \<and> (\<forall>lq. subQueues s q = Some lq \<longrightarrow> (\<exists>ext. subQueues ?s q = Some (lq @ ext)))"
    if "q \<in> set (allQueues s)" "q \<noteq> ?gone" for q
    by (rule shrunk_queueOk[OF w that, of ?s target l moved]) (use k in simp_all)
  have all: "list_all (queueOk ?s) (allQueues ?s)"
    unfolding list_all_iff using keep frame by blast
  have rs: "regularPriorityQueues ?s = butlast ?names"
    and hs: "highPriorityQueues ?s = highPriorityQueues s" and qs: "queue ?s = queue s"
    by simp_all
  have rn: "regularPriorityQueues ?s = map Regular [1..<Suc (length (regularPriorityQueues ?s))]"
    unfolding rs by (rule butlast_names[OF wellFormedD(4)[OF w]])
  have bne: "regularPriorityQueues ?s \<noteq> []"
    unfolding rs using len by (cases ?names; cases "tl ?names") auto
  have h2: "highPriorityQueues ?s \<noteq> []" unfolding hs by (rule wellFormedD(1)[OF w])
  have hn: "highPriorityQueues ?s = map High [1..<Suc (length (highPriorityQueues ?s))]"
    unfolding hs by (rule wellFormedD(3)[OF w])
  have qn: "list_all (\<lambda>t. 0 \<le> task_value t) (queue ?s)"
    unfolding qs by (rule wellFormedD(6)[OF w])
  have wf: "wellFormed ?s"
    by (rule wellFormedI[OF h2 bne hn rn all qn])
  show ?thesis using r wf keep frame False by (metis (no_types, lifting))
qed

text \<open>The completion effect.\<close>

lemma completionEffect_wellFormed:
  assumes w: "wellFormed s"
  shows "\<exists>c. completionEffect s s = Some c \<and> wellFormed c
           \<and> highPriorityQueues c = highPriorityQueues s
           \<and> regularPriorityQueues c = regularPriorityQueues s
           \<and> progress c = progress s
           \<and> (\<forall>q. \<not> completionDue s q
                 \<longrightarrow> subQueues c q = subQueues s q \<and> initialDuration c q = initialDuration s q)"
proof -
  let ?c = "s\<lparr>subQueues := (\<lambda>q. if q \<in> set (allQueues s) \<and> completionDue s q
                                 then map_option tl (subQueues s q) else subQueues s q),
              initialDuration := (\<lambda>q. if q \<in> set (allQueues s) \<and> completionDue s q
                                       then Some 0 else initialDuration s q)\<rparr>"
  have pre: "\<forall>q \<in> set (allQueues s). subQueues s q \<noteq> None \<and> subQueues s q \<noteq> None"
    using wellFormed_defined[OF w] by simp
  have c: "completionEffect s s = Some ?c"
    unfolding completionEffect_def
    by (rule completionLoop_result[OF pre wellFormed_distinct[OF w]])
  have ok: "\<forall>q \<in> set (allQueues s). queueOk ?c q"
  proof
    fix q assume q: "q \<in> set (allQueues s)"
    from wellFormed_queueOk[OF w q] obtain l p d where
      k: "subQueues s q = Some l" "progress s q = Some p" "initialDuration s q = Some d"
         "list_all (\<lambda>v. 0 \<le> v) l" "0 \<le> p" "p \<le> d"
      by (rule queueOkE)
    show "queueOk ?c q"
    proof (cases "completionDue s q")
      case True
      then have p0: "p = 0" using k by (simp add: completionDue_def)
      have "list_all (\<lambda>v. 0 \<le> v) (tl l)" using k(4) by (cases l) simp_all
      then show ?thesis using True q k p0 by (auto intro!: queueOkI[of _ _ "tl l" 0 0])
    next
      case False
      then show ?thesis using k by (auto intro!: queueOkI[of _ _ l p d])
    qed
  qed
  have wf: "wellFormed ?c"
    by (rule wellFormed_same_groups[OF w]) (use ok wellFormedD(6)[OF w] in simp_all)
  from c wf show ?thesis by auto
qed

text \<open>The load-balancing effect, its update applied to any state \<open>acc\<close>.\<close>

lemma redistributeTasks_result:
  assumes sd: "\<forall>q \<in> set queueGroup. subQueues snap q \<noteq> None"
    and ad: "\<forall>q \<in> set queueGroup. subQueues acc q \<noteq> None"
  shows "\<exists>acc'. redistributeTasks snap queueGroup acc = Some acc'
           \<and> (acc' = acc
              \<or> (\<exists>b i lb li. b \<in> set queueGroup \<and> i \<in> set queueGroup \<and> b \<noteq> i
                    \<and> isBusy snap b \<and> isIdle snap i
                    \<and> subQueues acc b = Some lb \<and> lb \<noteq> [] \<and> subQueues acc i = Some li
                    \<and> acc' = acc\<lparr>subQueues := (subQueues acc)(b \<mapsto> butlast lb, i \<mapsto> last lb # li)\<rparr>))"
proof (cases "idleQueues snap queueGroup = [] \<or> busyQueues snap queueGroup = []")
  case True
  then show ?thesis using redistributeTasks_nothing[OF sd True] by simp
next
  case False
  then obtain i idleRest where idle: "idleQueues snap queueGroup = i # idleRest"
    by (cases "idleQueues snap queueGroup") auto
  from False have busy: "busyQueues snap queueGroup \<noteq> []" by simp
  have bdef: "\<forall>q \<in> set (busyQueues snap queueGroup). subQueues snap q \<noteq> None"
    using busyQueues_defined by fastforce
  from busiest_first_max[OF busy bdef] obtain b pre post where
    bb: "busiest (subQueues snap) (busyQueues snap queueGroup)
           = Some (b, pendingSum (subQueues snap) b)" and
    dec: "busyQueues snap queueGroup = pre @ b # post"
    by blast
  have bin: "b \<in> set (busyQueues snap queueGroup)" using dec by simp
  then have bg: "b \<in> set queueGroup" and bbusy: "isBusy snap b"
    by (simp_all add: busyQueues_def)
  have "i \<in> set (idleQueues snap queueGroup)" using idle by simp
  then have ig: "i \<in> set queueGroup" and iidle: "isIdle snap i"
    by (simp_all add: idleQueues_def)
  have ne: "b \<noteq> i" using iidle bbusy idle_not_busy by blast
  from ad bg obtain lb where lb: "subQueues acc b = Some lb" by auto
  from ad ig obtain li where li: "subQueues acc i = Some li" by auto
  define go where "go = ((case subQueues snap b of None \<Rightarrow> False | Some l \<Rightarrow> length l > 1)
                         \<and> pendingSum (subQueues snap) b > 0)"
  have unf: "redistributeTasks snap queueGroup acc =
               (if go then (case moveLastTask b i (subQueues acc) of
                              None \<Rightarrow> None
                            | Some newQueues \<Rightarrow> Some (acc\<lparr>subQueues := newQueues\<rparr>))
                else Some acc)"
  proof -
    have nsd: "\<not> (\<exists>q \<in> set queueGroup. subQueues snap q = None)" using sd by blast
    show ?thesis
      unfolding redistributeTasks_def Let_def go_def
      by (simp only: nsd if_False idle bb) (use busy in simp)
  qed
  show ?thesis
  proof (cases "go \<and> lb \<noteq> []")
    case True
    have "moveLastTask b i (subQueues acc)
            = Some ((subQueues acc)(b \<mapsto> butlast lb, i \<mapsto> last lb # li))"
      using lb li ne True by (simp add: moveLastTask_def Let_def)
    then have "redistributeTasks snap queueGroup acc
                 = Some (acc\<lparr>subQueues := (subQueues acc)(b \<mapsto> butlast lb, i \<mapsto> last lb # li)\<rparr>)"
      using unf True by simp
    then show ?thesis using bg ig ne bbusy iidle lb li True by blast
  next
    case False
    have "moveLastTask b i (subQueues acc) = Some (subQueues acc)" if "lb = []"
      using lb that by (simp add: moveLastTask_def)
    then have "redistributeTasks snap queueGroup acc = Some acc"
      using unf False by (cases go) auto
    then show ?thesis by simp
  qed
qed

lemma redistributeTasks_wellFormed:
  assumes ws: "wellFormed snap" and wa: "wellFormed acc"
    and g: "set queueGroup \<subseteq> set (allQueues snap)"
    and hs: "highPriorityQueues acc = highPriorityQueues snap"
    and rs: "regularPriorityQueues acc = regularPriorityQueues snap"
  shows "\<exists>acc'. redistributeTasks snap queueGroup acc = Some acc' \<and> wellFormed acc'
           \<and> highPriorityQueues acc' = highPriorityQueues snap
           \<and> regularPriorityQueues acc' = regularPriorityQueues snap
           \<and> progress acc' = progress acc \<and> initialDuration acc' = initialDuration acc
           \<and> (\<forall>q. q \<notin> set queueGroup \<longrightarrow> subQueues acc' q = subQueues acc q)
           \<and> (\<forall>q l. subQueues snap q = Some l \<and> subQueues acc q = Some l \<and> l \<noteq> []
                 \<longrightarrow> (\<exists>l'. subQueues acc' q = Some l' \<and> l' \<noteq> [] \<and> hd l' = hd l))"
proof -
  have aq: "allQueues acc = allQueues snap" using hs rs by (simp add: allQueues_def)
  have sd: "\<forall>q \<in> set queueGroup. subQueues snap q \<noteq> None"
    using wellFormed_defined[OF ws] g by blast
  have ad: "\<forall>q \<in> set queueGroup. subQueues acc q \<noteq> None"
    using wellFormed_defined[OF wa] g aq by auto
  from redistributeTasks_result[OF sd ad] obtain acc' where
    r: "redistributeTasks snap queueGroup acc = Some acc'" and
    d: "acc' = acc
        \<or> (\<exists>b i lb li. b \<in> set queueGroup \<and> i \<in> set queueGroup \<and> b \<noteq> i
              \<and> isBusy snap b \<and> isIdle snap i
              \<and> subQueues acc b = Some lb \<and> lb \<noteq> [] \<and> subQueues acc i = Some li
              \<and> acc' = acc\<lparr>subQueues := (subQueues acc)(b \<mapsto> butlast lb, i \<mapsto> last lb # li)\<rparr>)"
    by blast
  from d show ?thesis
  proof
    assume "acc' = acc"
    then show ?thesis using r wa hs rs by auto
  next
    assume "\<exists>b i lb li. b \<in> set queueGroup \<and> i \<in> set queueGroup \<and> b \<noteq> i
              \<and> isBusy snap b \<and> isIdle snap i
              \<and> subQueues acc b = Some lb \<and> lb \<noteq> [] \<and> subQueues acc i = Some li
              \<and> acc' = acc\<lparr>subQueues := (subQueues acc)(b \<mapsto> butlast lb, i \<mapsto> last lb # li)\<rparr>"
    then obtain b i lb li where
      k: "b \<in> set queueGroup" "i \<in> set queueGroup" "b \<noteq> i" "isBusy snap b" "isIdle snap i"
         "subQueues acc b = Some lb" "lb \<noteq> []" "subQueues acc i = Some li"
         "acc' = acc\<lparr>subQueues := (subQueues acc)(b \<mapsto> butlast lb, i \<mapsto> last lb # li)\<rparr>"
      by blast
    have bq: "b \<in> set (allQueues acc)" and iq: "i \<in> set (allQueues acc)"
      using k(1,2) g aq by auto
    from wellFormed_queueOk[OF wa bq] k(6) have lbok: "list_all (\<lambda>v. 0 \<le> v) lb"
      by (auto simp: queueOk_def)
    from wellFormed_queueOk[OF wa iq] k(8) have liok: "list_all (\<lambda>v. 0 \<le> v) li"
      by (auto simp: queueOk_def)
    have lastok: "0 \<le> last lb" using lbok k(7) by (simp add: list_all_iff)
    have butok: "list_all (\<lambda>v. 0 \<le> v) (butlast lb)"
      using lbok by (auto simp: list_all_iff dest: in_set_butlastD)
    have ok: "\<forall>q \<in> set (allQueues acc). queueOk acc' q"
    proof
      fix q assume q: "q \<in> set (allQueues acc)"
      from wellFormed_queueOk[OF wa q] obtain l p d where
        m: "subQueues acc q = Some l" "progress acc q = Some p" "initialDuration acc q = Some d"
           "list_all (\<lambda>v. 0 \<le> v) l" "0 \<le> p" "p \<le> d"
        by (rule queueOkE)
      consider "q = i" | "q = b" "q \<noteq> i" | "q \<noteq> b" "q \<noteq> i" by blast
      then show "queueOk acc' q"
      proof cases
        case 1
        then show ?thesis using m k lastok liok
          by (auto intro!: queueOkI[of _ _ "last lb # li" p d])
      next
        case 2
        then show ?thesis using m k butok
          by (auto intro!: queueOkI[of _ _ "butlast lb" p d])
      next
        case 3
        then show ?thesis using m k by (auto intro!: queueOkI[of _ _ l p d])
      qed
    qed
    have wf: "wellFormed acc'"
      by (rule wellFormed_same_groups[OF wa]) (use ok k(9) wellFormedD(6)[OF wa] in simp_all)
    have f1: "\<forall>q. q \<notin> set queueGroup \<longrightarrow> subQueues acc' q = subQueues acc q"
      using k by auto
    have f2: "\<forall>q l. subQueues snap q = Some l \<and> subQueues acc q = Some l \<and> l \<noteq> []
                 \<longrightarrow> (\<exists>l'. subQueues acc' q = Some l' \<and> l' \<noteq> [] \<and> hd l' = hd l)"
    proof (intro allI impI)
      fix q l
      assume a: "subQueues snap q = Some l \<and> subQueues acc q = Some l \<and> l \<noteq> []"
      have qi: "q \<noteq> i" using a k(5) by (auto simp: isIdle_def)
      show "\<exists>l'. subQueues acc' q = Some l' \<and> l' \<noteq> [] \<and> hd l' = hd l"
      proof (cases "q = b")
        case True
        then have "1 < length l" using a k(4) by (simp add: isBusy_def)
        moreover have "lb = l" using True a k(6) by simp
        ultimately show ?thesis using True qi k(9) butlast_keeps_head[of l] by simp
      next
        case False
        then show ?thesis using a qi k(9) by simp
      qed
    qed
    show ?thesis using r wf hs rs k(9) f1 f2 by simp
  qed
qed

lemma rebalanceEffect_wellFormed:
  assumes ws: "wellFormed snap" and wa: "wellFormed acc"
    and hs: "highPriorityQueues acc = highPriorityQueues snap"
    and rs: "regularPriorityQueues acc = regularPriorityQueues snap"
  shows "\<exists>acc'. rebalanceEffect snap acc = Some acc' \<and> wellFormed acc'
           \<and> highPriorityQueues acc' = highPriorityQueues snap
           \<and> regularPriorityQueues acc' = regularPriorityQueues snap
           \<and> progress acc' = progress acc \<and> initialDuration acc' = initialDuration acc
           \<and> (\<forall>q l. subQueues snap q = Some l \<and> subQueues acc q = Some l \<and> l \<noteq> []
                 \<longrightarrow> (\<exists>l'. subQueues acc' q = Some l' \<and> l' \<noteq> [] \<and> hd l' = hd l))"
proof -
  have gh: "set (highPriorityQueues snap) \<subseteq> set (allQueues snap)"
    and gr: "set (regularPriorityQueues snap) \<subseteq> set (allQueues snap)"
    by (auto simp: allQueues_def)
  from redistributeTasks_wellFormed[OF ws wa gh hs rs] obtain a1 where
    r1: "redistributeTasks snap (highPriorityQueues snap) acc = Some a1" and w1: "wellFormed a1" and
    h1: "highPriorityQueues a1 = highPriorityQueues snap" and
    g1: "regularPriorityQueues a1 = regularPriorityQueues snap" and
    p1: "progress a1 = progress acc" "initialDuration a1 = initialDuration acc" and
    o1: "\<forall>q. q \<notin> set (highPriorityQueues snap) \<longrightarrow> subQueues a1 q = subQueues acc q" and
    k1: "\<forall>q l. subQueues snap q = Some l \<and> subQueues acc q = Some l \<and> l \<noteq> []
                 \<longrightarrow> (\<exists>l'. subQueues a1 q = Some l' \<and> l' \<noteq> [] \<and> hd l' = hd l)"
    by blast
  from redistributeTasks_wellFormed[OF ws w1 gr h1 g1] obtain a2 where
    r2: "redistributeTasks snap (regularPriorityQueues snap) a1 = Some a2" and w2: "wellFormed a2" and
    h2: "highPriorityQueues a2 = highPriorityQueues snap" and
    g2: "regularPriorityQueues a2 = regularPriorityQueues snap" and
    p2: "progress a2 = progress a1" "initialDuration a2 = initialDuration a1" and
    o2: "\<forall>q. q \<notin> set (regularPriorityQueues snap) \<longrightarrow> subQueues a2 q = subQueues a1 q" and
    k2: "\<forall>q l. subQueues snap q = Some l \<and> subQueues a1 q = Some l \<and> l \<noteq> []
                 \<longrightarrow> (\<exists>l'. subQueues a2 q = Some l' \<and> l' \<noteq> [] \<and> hd l' = hd l)"
    by blast
  have r: "rebalanceEffect snap acc = Some a2"
    using r1 r2 by (simp add: rebalanceEffect_def)
  have disj: "set (highPriorityQueues snap) \<inter> set (regularPriorityQueues snap) = {}"
    using wellFormed_distinct[OF ws] by (simp add: allQueues_def)
  have heads: "\<forall>q l. subQueues snap q = Some l \<and> subQueues acc q = Some l \<and> l \<noteq> []
                 \<longrightarrow> (\<exists>l'. subQueues a2 q = Some l' \<and> l' \<noteq> [] \<and> hd l' = hd l)"
  proof (intro allI impI)
    fix q l
    assume a: "subQueues snap q = Some l \<and> subQueues acc q = Some l \<and> l \<noteq> []"
    show "\<exists>l'. subQueues a2 q = Some l' \<and> l' \<noteq> [] \<and> hd l' = hd l"
    proof (cases "q \<in> set (highPriorityQueues snap)")
      case True
      then have "q \<notin> set (regularPriorityQueues snap)" using disj by blast
      then have "subQueues a2 q = subQueues a1 q" using o2 by blast
      then show ?thesis using k1 a by simp
    next
      case False
      then have "subQueues a1 q = Some l" using o1 a by simp
      then show ?thesis using k2 a by blast
    qed
  qed
  from r w2 h2 g2 p1 p2 heads show ?thesis by simp
qed

text \<open>The initialization effect, its updates applied to any state \<open>acc\<close>.\<close>

lemma initializationEffect_wellFormed:
  assumes ws: "wellFormed snap" and wa: "wellFormed acc"
    and hs: "highPriorityQueues acc = highPriorityQueues snap"
    and rs: "regularPriorityQueues acc = regularPriorityQueues snap"
  shows "\<exists>c. initializationEffect snap acc = Some c \<and> wellFormed c
           \<and> highPriorityQueues c = highPriorityQueues snap
           \<and> regularPriorityQueues c = regularPriorityQueues snap
           \<and> subQueues c = subQueues acc
           \<and> (\<forall>q \<in> set (allQueues snap). initializationDue snap q
                 \<longrightarrow> progress c q = map_option hd (subQueues snap q)
                     \<and> initialDuration c q = map_option hd (subQueues snap q))
           \<and> (\<forall>q. \<not> initializationDue snap q
                 \<longrightarrow> progress c q = progress acc q \<and> initialDuration c q = initialDuration acc q)"
proof -
  let ?c = "acc\<lparr>progress := (\<lambda>q. if q \<in> set (allQueues snap) \<and> initializationDue snap q
                                  then map_option hd (subQueues snap q) else progress acc q),
                initialDuration := (\<lambda>q. if q \<in> set (allQueues snap) \<and> initializationDue snap q
                                         then map_option hd (subQueues snap q)
                                         else initialDuration acc q)\<rparr>"
  have aq: "allQueues acc = allQueues snap" using hs rs by (simp add: allQueues_def)
  have c: "initializationEffect snap acc = Some ?c"
    unfolding initializationEffect_def
    by (rule initializationLoop_result[OF wellFormed_defined[OF ws]])
  have ok: "\<forall>q \<in> set (allQueues acc). queueOk ?c q"
  proof
    fix q assume q: "q \<in> set (allQueues acc)"
    then have qs: "q \<in> set (allQueues snap)" using aq by simp
    from wellFormed_queueOk[OF wa q] obtain l p d where
      k: "subQueues acc q = Some l" "progress acc q = Some p" "initialDuration acc q = Some d"
         "list_all (\<lambda>v. 0 \<le> v) l" "0 \<le> p" "p \<le> d"
      by (rule queueOkE)
    from wellFormed_queueOk[OF ws qs] obtain ls where
      m: "subQueues snap q = Some ls" "list_all (\<lambda>v. 0 \<le> v) ls"
      by (auto simp: queueOk_def)
    show "queueOk ?c q"
    proof (cases "initializationDue snap q")
      case True
      then have "ls \<noteq> []" using m by (simp add: initializationDue_def)
      then have "0 \<le> hd ls" using m(2) by (cases ls) simp_all
      then show ?thesis using True qs k m
        by (auto intro!: queueOkI[of _ _ l "hd ls" "hd ls"])
    next
      case False
      then show ?thesis using k by (auto intro!: queueOkI[of _ _ l p d])
    qed
  qed
  have wf: "wellFormed ?c"
    by (rule wellFormed_same_groups[OF wa]) (use ok wellFormedD(6)[OF wa] in simp_all)
  from c wf hs rs show ?thesis by auto
qed

text \<open>All effects of one render.\<close>

lemma effectsPass_wellFormed:
  assumes w: "wellFormed s"
  shows "\<exists>s'. effectsPass s = Some s' \<and> wellFormed s'
           \<and> highPriorityQueues s' = highPriorityQueues s
           \<and> regularPriorityQueues s' = regularPriorityQueues s
           \<and> (\<forall>q. zeroHead s q \<longrightarrow> zeroHead s' q)"
proof -
  from completionEffect_wellFormed[OF w] obtain a where
    ra: "completionEffect s s = Some a" and wa: "wellFormed a" and
    ha: "highPriorityQueues a = highPriorityQueues s" and
    ga: "regularPriorityQueues a = regularPriorityQueues s" and
    pa: "progress a = progress s" and
    fa: "\<forall>q. \<not> completionDue s q
              \<longrightarrow> subQueues a q = subQueues s q \<and> initialDuration a q = initialDuration s q"
    by blast
  from rebalanceEffect_wellFormed[OF w wa ha ga] obtain b where
    rb: "rebalanceEffect s a = Some b" and wb: "wellFormed b" and
    hb: "highPriorityQueues b = highPriorityQueues s" and
    gb: "regularPriorityQueues b = regularPriorityQueues s" and
    pb: "progress b = progress a" "initialDuration b = initialDuration a" and
    fb: "\<forall>q l. subQueues s q = Some l \<and> subQueues a q = Some l \<and> l \<noteq> []
                 \<longrightarrow> (\<exists>l'. subQueues b q = Some l' \<and> l' \<noteq> [] \<and> hd l' = hd l)"
    by blast
  from initializationEffect_wellFormed[OF w wb hb gb] obtain c where
    rc: "initializationEffect s b = Some c" and wc: "wellFormed c" and
    hc: "highPriorityQueues c = highPriorityQueues s" and
    gc: "regularPriorityQueues c = regularPriorityQueues s" and
    sc: "subQueues c = subQueues b" and
    fc: "\<forall>q \<in> set (allQueues s). initializationDue s q
                 \<longrightarrow> progress c q = map_option hd (subQueues s q)
                     \<and> initialDuration c q = map_option hd (subQueues s q)"
    by blast
  have r: "effectsPass s = Some c" using ra rb rc by (simp add: effectsPass_def)
  have z: "\<forall>q. zeroHead s q \<longrightarrow> zeroHead c q"
  proof (intro allI impI)
    fix q assume zq: "zeroHead s q"
    then obtain rest where
      k: "q \<in> set (allQueues s)" "subQueues s q = Some (0 # rest)" "progress s q = Some 0"
         "initialDuration s q = Some 0"
      by (auto simp: zeroHead_def)
    have "\<not> completionDue s q" using k by (simp add: completionDue_def)
    then have "subQueues a q = Some (0 # rest)" using fa k by simp
    then obtain l' where l': "subQueues b q = Some l'" "l' \<noteq> []" "hd l' = 0"
      using fb k(2) by fastforce
    have due: "initializationDue s q" using k by (simp add: initializationDue_def)
    have "progress c q = Some 0 \<and> initialDuration c q = Some 0" using fc k due by simp
    moreover have "subQueues c q = Some (0 # tl l')" using l' sc by (cases l') simp_all
    moreover have "q \<in> set (allQueues c)" using k(1) hc gc by (simp add: allQueues_def)
    ultimately show "zeroHead c q" by (simp add: zeroHead_def)
  qed
  from r wc hc gc z show ?thesis by blast
qed

text \<open>Every event keeps a state well formed, and keeps a blocked queue blocked.\<close>

lemma zeroHead_append:
  assumes "zeroHead s q" and "highPriorityQueues s' = highPriorityQueues s"
    and "regularPriorityQueues s' = regularPriorityQueues s"
    and "progress s' q = progress s q" and "initialDuration s' q = initialDuration s q"
    and "\<forall>l. subQueues s q = Some l \<longrightarrow> (\<exists>ext. subQueues s' q = Some (l @ ext))"
  shows "zeroHead s' q"
  using assms by (fastforce simp: zeroHead_def allQueues_def)

lemma zeroHead_grown:
  assumes "zeroHead s q" and "set (allQueues s) \<subseteq> set (allQueues s')"
    and "subQueues s' q = subQueues s q"
    and "progress s' q = progress s q" and "initialDuration s' q = initialDuration s q"
  shows "zeroHead s' q"
  using assms by (auto simp: zeroHead_def)

lemma fire_wellFormed:
  assumes w: "wellFormed s" and p: "possible e"
  shows "\<exists>s'. fire e s = Some s' \<and> wellFormed s'
           \<and> (\<forall>q. zeroHead s q \<and> \<not> removed e s q \<longrightarrow> zeroHead s' q)"
proof (cases e)
  case (AddTask r ty)
  have "wellFormed (addTask r ty s)" using w p AddTask by (simp add: wellFormed_addTask)
  moreover have "zeroHead (addTask r ty s) q = zeroHead s q" for q
    by (simp add: zeroHead_def addTask_def allQueues_def)
  ultimately show ?thesis using AddTask by simp
next
  case AdmitTask
  from admitTask_wellFormed[OF w] obtain s' where
    k: "admitTask s = Some s'" "wellFormed s'"
       "highPriorityQueues s' = highPriorityQueues s"
       "regularPriorityQueues s' = regularPriorityQueues s"
       "progress s' = progress s" "initialDuration s' = initialDuration s"
       "\<forall>q l. subQueues s q = Some l \<longrightarrow> (\<exists>ext. subQueues s' q = Some (l @ ext))"
    by blast
  have "zeroHead s' q" if "zeroHead s q" for q
    by (rule zeroHead_append[OF that k(3,4)]) (use k in simp_all)
  then show ?thesis using AdmitTask k(1,2) by auto
next
  case Unpause
  have "zeroHead (unpause s) q = zeroHead s q" for q
    by (simp add: zeroHead_def unpause_def allQueues_def)
  then show ?thesis using Unpause wellFormed_unpause[OF w] by simp
next
  case AddHigh
  let ?s = "addHighPriorityQueue s"
  have fresh: "High (length (highPriorityQueues s) + 1) \<notin> set (allQueues s)"
    using fresh_names[OF w] by simp
  have "zeroHead ?s q" if z: "zeroHead s q" for q
  proof -
    have "q \<in> set (allQueues s)" using z by (simp add: zeroHead_def)
    then have ne: "q \<noteq> High (length (highPriorityQueues s) + 1)" using fresh by auto
    show ?thesis
      by (rule zeroHead_grown[OF z])
         (use ne in \<open>auto simp: addHighPriorityQueue_def allQueues_def Let_def\<close>)
  qed
  then show ?thesis using AddHigh addHighPriorityQueue_wellFormed[OF w] by simp
next
  case RemoveHigh
  from removeHighPriorityQueue_wellFormed[OF w] obtain s' where
    k: "removeHighPriorityQueue s = Some s'" "wellFormed s'" and
    f: "\<forall>q \<in> set (allQueues s).
          length (highPriorityQueues s) \<le> 1 \<or> q \<noteq> last (highPriorityQueues s)
          \<longrightarrow> q \<in> set (allQueues s') \<and> progress s' q = progress s q
              \<and> initialDuration s' q = initialDuration s q
              \<and> (\<forall>lq. subQueues s q = Some lq \<longrightarrow> (\<exists>ext. subQueues s' q = Some (lq @ ext)))"
    by blast
  have "zeroHead s' q" if z: "zeroHead s q" and nr: "\<not> removed RemoveHigh s q" for q
  proof -
    from z obtain rest where
      m: "q \<in> set (allQueues s)" "subQueues s q = Some (0 # rest)" "progress s q = Some 0"
         "initialDuration s q = Some 0"
      by (auto simp: zeroHead_def)
    have c: "length (highPriorityQueues s) \<le> 1 \<or> q \<noteq> last (highPriorityQueues s)"
      using nr by auto
    from f[rule_format, OF m(1) c] m show ?thesis by (fastforce simp: zeroHead_def)
  qed
  then show ?thesis using RemoveHigh k by auto
next
  case AddRegular
  let ?s = "addRegularPriorityQueue s"
  have fresh: "Regular (length (regularPriorityQueues s) + 1) \<notin> set (allQueues s)"
    using fresh_names[OF w] by simp
  have "zeroHead ?s q" if z: "zeroHead s q" for q
  proof -
    have "q \<in> set (allQueues s)" using z by (simp add: zeroHead_def)
    then have ne: "q \<noteq> Regular (length (regularPriorityQueues s) + 1)" using fresh by auto
    show ?thesis
      by (rule zeroHead_grown[OF z])
         (use ne in \<open>auto simp: addRegularPriorityQueue_def allQueues_def Let_def\<close>)
  qed
  then show ?thesis using AddRegular addRegularPriorityQueue_wellFormed[OF w] by simp
next
  case RemoveRegular
  from removeRegularPriorityQueue_wellFormed[OF w] obtain s' where
    k: "removeRegularPriorityQueue s = Some s'" "wellFormed s'" and
    f: "\<forall>q \<in> set (allQueues s).
          length (regularPriorityQueues s) \<le> 1 \<or> q \<noteq> last (regularPriorityQueues s)
          \<longrightarrow> q \<in> set (allQueues s') \<and> progress s' q = progress s q
              \<and> initialDuration s' q = initialDuration s q
              \<and> (\<forall>lq. subQueues s q = Some lq \<longrightarrow> (\<exists>ext. subQueues s' q = Some (lq @ ext)))"
    by blast
  have "zeroHead s' q" if z: "zeroHead s q" and nr: "\<not> removed RemoveRegular s q" for q
  proof -
    from z obtain rest where
      m: "q \<in> set (allQueues s)" "subQueues s q = Some (0 # rest)" "progress s q = Some 0"
         "initialDuration s q = Some 0"
      by (auto simp: zeroHead_def)
    have c: "length (regularPriorityQueues s) \<le> 1 \<or> q \<noteq> last (regularPriorityQueues s)"
      using nr by auto
    from f[rule_format, OF m(1) c] m show ?thesis by (fastforce simp: zeroHead_def)
  qed
  then show ?thesis using RemoveRegular k by auto
next
  case (GraceExpire n)
  have "zeroHead (graceExpire n s) q = zeroHead s q" for q
    by (simp add: zeroHead_def graceExpire_def allQueues_def)
  then show ?thesis using GraceExpire wellFormed_graceExpire[OF w] by simp
next
  case Tick
  from progressTick_wellFormed[OF w] obtain s' where
    k: "progressTick s = Some s'" "wellFormed s'"
       "highPriorityQueues s' = highPriorityQueues s"
       "regularPriorityQueues s' = regularPriorityQueues s"
       "subQueues s' = subQueues s" "initialDuration s' = initialDuration s"
       "\<forall>q. progress s q = Some 0 \<longrightarrow> progress s' q = Some 0"
    by blast
  have "zeroHead s' q" if "zeroHead s q" for q
    using that k by (auto simp: zeroHead_def allQueues_def)
  then show ?thesis using Tick k(1,2) by auto
next
  case Completion
  from completionEffect_wellFormed[OF w] obtain c where
    k: "completionEffect s s = Some c" "wellFormed c"
       "highPriorityQueues c = highPriorityQueues s"
       "regularPriorityQueues c = regularPriorityQueues s"
       "progress c = progress s"
       "\<forall>q. \<not> completionDue s q
              \<longrightarrow> subQueues c q = subQueues s q \<and> initialDuration c q = initialDuration s q"
    by blast
  have "zeroHead c q" if z: "zeroHead s q" for q
  proof -
    have "\<not> completionDue s q" using z by (auto simp: zeroHead_def completionDue_def)
    then show ?thesis using z k by (auto simp: zeroHead_def allQueues_def)
  qed
  then show ?thesis using Completion k(1,2) by auto
next
  case Rebalance
  from rebalanceEffect_wellFormed[OF w w refl refl] obtain b where
    k: "rebalanceEffect s s = Some b" "wellFormed b"
       "highPriorityQueues b = highPriorityQueues s"
       "regularPriorityQueues b = regularPriorityQueues s"
       "progress b = progress s" "initialDuration b = initialDuration s"
       "\<forall>q l. subQueues s q = Some l \<and> subQueues s q = Some l \<and> l \<noteq> []
                 \<longrightarrow> (\<exists>l'. subQueues b q = Some l' \<and> l' \<noteq> [] \<and> hd l' = hd l)"
    by blast
  have "zeroHead b q" if z: "zeroHead s q" for q
  proof -
    from z obtain rest where
      m: "q \<in> set (allQueues s)" "subQueues s q = Some (0 # rest)" "progress s q = Some 0"
         "initialDuration s q = Some 0"
      by (auto simp: zeroHead_def)
    from k(7) m(2) obtain l' where l': "subQueues b q = Some l'" "l' \<noteq> []" "hd l' = 0"
      by fastforce
    then have "subQueues b q = Some (0 # tl l')" by (cases l') simp_all
    then show ?thesis using m k by (simp add: zeroHead_def allQueues_def)
  qed
  then show ?thesis using Rebalance k(1,2) by auto
next
  case Initialization
  from initializationEffect_wellFormed[OF w w refl refl] obtain c where
    k: "initializationEffect s s = Some c" "wellFormed c"
       "highPriorityQueues c = highPriorityQueues s"
       "regularPriorityQueues c = regularPriorityQueues s"
       "subQueues c = subQueues s"
       "\<forall>q \<in> set (allQueues s). initializationDue s q
                 \<longrightarrow> progress c q = map_option hd (subQueues s q)
                     \<and> initialDuration c q = map_option hd (subQueues s q)"
    by blast
  have "zeroHead c q" if z: "zeroHead s q" for q
  proof -
    from z obtain rest where
      m: "q \<in> set (allQueues s)" "subQueues s q = Some (0 # rest)" "progress s q = Some 0"
         "initialDuration s q = Some 0"
      by (auto simp: zeroHead_def)
    have "initializationDue s q" using m by (simp add: initializationDue_def)
    then have "progress c q = Some 0 \<and> initialDuration c q = Some 0" using k(6) m by simp
    then show ?thesis using m k by (simp add: zeroHead_def allQueues_def)
  qed
  then show ?thesis using Initialization k(1,2) by auto
next
  case Effects
  from effectsPass_wellFormed[OF w] show ?thesis using Effects by auto
qed

lemma reachable_wellFormed: "reachable s \<Longrightarrow> wellFormed s"
proof (induction rule: reachable.induct)
  case initial
  show ?case by (rule wellFormed_initialState)
next
  case (step s e s')
  from fire_wellFormed[OF step.IH step.hyps(2)] step.hyps(3) show ?case by auto
qed

lemma run_zeroHead:
  assumes "wellFormed s" and "zeroHead s q" and "list_all possible es" and "keeps q es s"
  shows "\<exists>s'. run es s = Some s' \<and> wellFormed s' \<and> zeroHead s' q"
  using assms
proof (induction es arbitrary: s)
  case Nil
  then show ?case by simp
next
  case (Cons e es)
  have p: "possible e" and ps: "list_all possible es" using Cons.prems(3) by simp_all
  from fire_wellFormed[OF Cons.prems(1) p] obtain s1 where
    f: "fire e s = Some s1" and w1: "wellFormed s1" and
    z: "\<forall>q. zeroHead s q \<and> \<not> removed e s q \<longrightarrow> zeroHead s1 q"
    by blast
  have nr: "\<not> removed e s q" and k1: "keeps q es s1" using Cons.prems(4) f by simp_all
  have z1: "zeroHead s1 q" using z Cons.prems(2) nr by blast
  from Cons.IH[OF w1 z1 ps k1] show ?case using f by simp
qed

lemma keeps_without_shrink: "\<not> list_ex shrinks es \<Longrightarrow> keeps q es s"
proof (induction es arbitrary: s)
  case Nil
  show ?case by simp
next
  case (Cons e es)
  then have "\<not> shrinks e" and "\<not> list_ex shrinks es" by simp_all
  then show ?case using Cons.IH by (cases e) (auto split: option.splits)
qed

lemma run_reachable:
  assumes "reachable s" and "list_all possible es" and "run es s = Some s'"
  shows "reachable s'"
  using assms
proof (induction es arbitrary: s)
  case Nil
  then show ?case by simp
next
  case (Cons e es)
  from Cons.prems(3) obtain s1 where f: "fire e s = Some s1" and r: "run es s1 = Some s'"
    by (auto split: option.splits)
  have "reachable s1" using Cons.prems(1,2) f by (auto intro: reachable.step)
  then show ?case using Cons.IH Cons.prems(2) r by simp
qed

text \<open>No event fails in a reachable state.\<close>

lemma reachable_total:
  assumes "reachable s" and "possible e"
  shows "\<exists>s'. fire e s = Some s' \<and> reachable s'"
  using fire_wellFormed[OF reachable_wellFormed[OF assms(1)] assms(2)] assms
  by (blast intro: reachable.step)

text \<open>
  In every reachable state the progress of a queue of either group lies between 0 and
  its initial duration.
\<close>

lemma reachable_bounded_progress:
  assumes "reachable s" and "q \<in> set (allQueues s)"
  shows "\<exists>p d. progress s q = Some p \<and> initialDuration s q = Some d \<and> 0 \<le> p \<and> p \<le> d"
  using wellFormed_queueOk[OF reachable_wellFormed[OF assms(1)] assms(2)]
  by (auto simp: queueOk_def)

section \<open>The group floor (claim C9)\<close>

text \<open>
  Claim C9. Removing a queue from a group of at most one queue returns the state
  unchanged, for the high-priority and for the regular group, and in every reachable
  state both groups hold at least one queue.
\<close>

theorem C9_group_floor:
  "(length (highPriorityQueues s) \<le> 1 \<longrightarrow> removeHighPriorityQueue s = Some s)
   \<and> (length (regularPriorityQueues s) \<le> 1 \<longrightarrow> removeRegularPriorityQueue s = Some s)
   \<and> (reachable s \<longrightarrow> 1 \<le> length (highPriorityQueues s)
                       \<and> 1 \<le> length (regularPriorityQueues s))"
proof (intro conjI impI)
  assume "length (highPriorityQueues s) \<le> 1"
  then show "removeHighPriorityQueue s = Some s" by (simp add: removeHighPriorityQueue_def)
next
  assume "length (regularPriorityQueues s) \<le> 1"
  then show "removeRegularPriorityQueue s = Some s" by (simp add: removeRegularPriorityQueue_def)
next
  assume "reachable s"
  then have w: "wellFormed s" by (rule reachable_wellFormed)
  from wellFormedD(1)[OF w] show "1 \<le> length (highPriorityQueues s)"
    by (cases "highPriorityQueues s") simp_all
next
  assume "reachable s"
  then have w: "wellFormed s" by (rule reachable_wellFormed)
  from wellFormedD(2)[OF w] show "1 \<le> length (regularPriorityQueues s)"
    by (cases "regularPriorityQueues s") simp_all
qed

theorem C9_group_floor_witness:
  "removeHighPriorityQueue initialState = Some initialState
   \<and> (\<exists>s. run [RemoveRegular, RemoveRegular, RemoveRegular] initialState = Some s
         \<and> regularPriorityQueues s = [Regular 1]
         \<and> removeRegularPriorityQueue s = Some s
         \<and> 1 \<le> length (highPriorityQueues s) \<and> 1 \<le> length (regularPriorityQueues s))"
proof -
  have h: "length (highPriorityQueues initialState) \<le> 1" by (simp add: initialState_def)
  have a: "removeHighPriorityQueue initialState = Some initialState"
    using C9_group_floor[of initialState] h by blast
  obtain s where
    r: "run [RemoveRegular, RemoveRegular, RemoveRegular] initialState = Some s" and
    g: "regularPriorityQueues s = [Regular 1]"
    by (simp add: eval_defs)
  have rs: "reachable s"
    by (rule run_reachable[OF reachable.initial _ r]) simp
  have l: "length (regularPriorityQueues s) \<le> 1" using g by simp
  have "removeRegularPriorityQueue s = Some s
        \<and> 1 \<le> length (highPriorityQueues s) \<and> 1 \<le> length (regularPriorityQueues s)"
    using C9_group_floor[of s] rs l by blast
  with a r g show ?thesis by blast
qed

section \<open>Tasks of value 0 (claims C10 and C7)\<close>

lemma zeroTaskState_run:
  "run [AddTask 0 high, AdmitTask] initialState = Some zeroTaskState"
  by (simp add: eval_defs zeroTaskState_def)

text \<open>
  Claim C10. The value 0 is produced when \<open>Math.random()\<close> is below 0.005. Take a
  reachable state in which a queue of a group has a head task of value 0 with progress
  and initial duration 0. The initialization effect applies to the queue and sets both
  progress and initial duration to 0 again, and the completion condition does not hold.
  After every run of events that does not delete the queue itself (ticks, effects,
  admissions, growing, shrinking of other queues), no event fails, the task of value 0 is
  still the head of the queue with progress and initial duration 0, and the completion
  condition still does not hold: the queue never gets past that task.
\<close>

theorem C10_zero_head_blocks_queue:
  assumes "reachable s" and "zeroHead s q" and "list_all possible es" and "keeps q es s"
  shows "initializationDue s q \<and> \<not> completionDue s q
         \<and> (\<exists>i. initializationEffect s s = Some i \<and> subQueues i q = subQueues s q
               \<and> progress i q = Some 0 \<and> initialDuration i q = Some 0)
         \<and> (\<exists>s'. run es s = Some s' \<and> zeroHead s' q \<and> \<not> completionDue s' q)"
proof -
  have w: "wellFormed s" by (rule reachable_wellFormed[OF assms(1)])
  from assms(2) obtain rest where
    m: "q \<in> set (allQueues s)" "subQueues s q = Some (0 # rest)" "progress s q = Some 0"
       "initialDuration s q = Some 0"
    by (auto simp: zeroHead_def)
  have due: "initializationDue s q" using m by (simp add: initializationDue_def)
  have nc: "\<not> completionDue s q" using m by (simp add: completionDue_def)
  from initializationEffect_wellFormed[OF w w refl refl] obtain i where
    k: "initializationEffect s s = Some i" "subQueues i = subQueues s"
       "\<forall>q \<in> set (allQueues s). initializationDue s q
                 \<longrightarrow> progress i q = map_option hd (subQueues s q)
                     \<and> initialDuration i q = map_option hd (subQueues s q)"
    by blast
  have init: "\<exists>i. initializationEffect s s = Some i \<and> subQueues i q = subQueues s q
               \<and> progress i q = Some 0 \<and> initialDuration i q = Some 0"
    using k m due by auto
  from run_zeroHead[OF w assms(2,3,4)] obtain s' where
    r: "run es s = Some s'" "zeroHead s' q"
    by blast
  have "\<not> completionDue s' q" using r(2) by (auto simp: zeroHead_def completionDue_def)
  with due nc init r show ?thesis by blast
qed

theorem C10_zero_head_blocks_queue_witness:
  "generatedValue 0 = 0
   \<and> run [AddTask 0 high, AdmitTask] initialState = Some zeroTaskState
   \<and> (\<exists>s'. run [Effects, Unpause, Tick, Effects, AddTask (1 / 2) high, AdmitTask, Effects,
                 Unpause, Tick, Completion, Rebalance, Initialization, AddHigh, Effects, Tick]
              zeroTaskState = Some s'
         \<and> zeroHead s' (High 1) \<and> \<not> completionDue s' (High 1))"
proof -
  let ?es = "[Effects, Unpause, Tick, Effects, AddTask (1 / 2) high, AdmitTask, Effects,
              Unpause, Tick, Completion, Rebalance, Initialization, AddHigh, Effects, Tick]"
  have g: "generatedValue 0 = 0" by (rule generated_values)
  have r: "reachable zeroTaskState"
    by (rule run_reachable[OF reachable.initial _ zeroTaskState_run]) simp
  have z: "zeroHead zeroTaskState (High 1)"
    by (simp add: zeroHead_def zeroTaskState_def initialState_def allQueues_def)
  have p: "list_all possible ?es" by simp
  have k: "keeps (High 1) ?es zeroTaskState" by (rule keeps_without_shrink) simp
  from C10_zero_head_blocks_queue[OF r z p k] g zeroTaskState_run show ?thesis by blast
qed

text \<open>
  Claim C7 says that a queue has initial duration 0 exactly when it has no initialized
  head task. The first half of the claim, progress between 0 and the initial duration,
  holds in every reachable state (\<open>reachable_bounded_progress\<close>). The second half fails
  for a task of value 0: after it is added and admitted to the empty \<open>high1\<close>, the
  initialization effect applies to it and stores its value as progress and initial
  duration, so the queue has an initialized head task and its initial duration is 0.
\<close>

theorem C7_zero_task_initial_duration:
  "run [AddTask 0 high, AdmitTask] initialState = Some zeroTaskState
   \<and> subQueues zeroTaskState (High 1) = Some [0]
   \<and> initializationDue zeroTaskState (High 1)
   \<and> initializationEffect zeroTaskState zeroTaskState
       = Some (zeroTaskState\<lparr>progress := (progress zeroTaskState)(High 1 \<mapsto> 0),
                             initialDuration := (initialDuration zeroTaskState)(High 1 \<mapsto> 0)\<rparr>)
   \<and> effectsPass zeroTaskState
       = Some (zeroTaskState\<lparr>progress := (progress zeroTaskState)(High 1 \<mapsto> 0),
                             initialDuration := (initialDuration zeroTaskState)(High 1 \<mapsto> 0)\<rparr>)"
  by (simp add: eval_defs zeroTaskState_def initializationDue_def)

end
